theory Spec2Isabelle
  imports Complex_Main "HOL-Library.AList" "HOL-Library.Multiset"
begin

section \<open>Errors\<close>

text \<open>
  The JavaScript source throws \<^verbatim>\<open>Error\<close> objects that differ only in their message.
  Each distinct cause is one constructor here; \<open>TypeError\<close> stands for the runtime error
  of calling a method on \<^verbatim>\<open>undefined\<close> (a \<^verbatim>\<open>Map.get\<close> that found nothing).
\<close>

datatype error =
    UnknownUser
  | InvalidProbability
  | InvalidDuration
  | InvalidTarget
  | InvalidPrecision
  | TypeError

section \<open>Simulation (class \<^verbatim>\<open>Simulation\<close>)\<close>

text \<open>
  Numbers: probabilities, bonuses, the precision and the per-slot accumulators are
  JavaScript numbers and are modelled as exact rationals (\<^typ>\<open>rat\<close>); day counts and
  referral targets are whole numbers (\<^typ>\<open>int\<close>). Rounding of IEEE doubles is not
  modelled.
\<close>

definition initialActiveReferrers :: nat where
  "initialActiveReferrers = 100"

definition referralCapacity :: rat where
  "referralCapacity = 10"

definition MAX_REFERRERS :: nat where
  "MAX_REFERRERS = 5000"

definition MAX_DAYS :: int where
  "MAX_DAYS = 100"

text \<open>
  The inner loop of \<^verbatim>\<open>simulate\<close> over \<^verbatim>\<open>referrerCounts\<close>: a slot at or above capacity
  is skipped, every other slot adds \<open>p\<close> to \<^verbatim>\<open>dailyReferrals\<close> and to its own counter.
  The first argument after \<open>p\<close> is the running value of \<^verbatim>\<open>dailyReferrals\<close>.
\<close>

fun process_referrers :: "rat \<Rightarrow> rat \<Rightarrow> rat list \<Rightarrow> rat \<times> rat list" where
  "process_referrers p daily [] = (daily, [])"
| "process_referrers p daily (c # cs) =
     (if referralCapacity \<le> c
      then (let (d, cs') = process_referrers p daily cs in (d, c # cs'))
      else (let (d, cs') = process_referrers p (daily + p) cs in (d, (c + p) # cs')))"

text \<open>
  The loop that appends new slots:
  \<^verbatim>\<open>for (i = 0; i < newReferrerCount && referrerCounts.length < MAX_REFERRERS; i++)\<close>.
  (\<^verbatim>\<open>newReferrers\<close> and \<^verbatim>\<open>nextReferrerId\<close> are written but never read, and are left out.)
\<close>

fun add_new_referrers :: "nat \<Rightarrow> rat list \<Rightarrow> rat list" where
  "add_new_referrers 0 cs = cs"
| "add_new_referrers (Suc k) cs =
     (if length cs < MAX_REFERRERS then add_new_referrers k (cs @ [0]) else cs)"

text \<open>
  The loop over days. Arguments: \<open>p\<close>, the number of days still to run,
  \<^verbatim>\<open>referrerCounts\<close> and \<^verbatim>\<open>totalReferrals\<close>. It returns the entries pushed onto
  \<^verbatim>\<open>cumulativeReferrals\<close> from this day on, and the final \<^verbatim>\<open>referrerCounts\<close>.
\<close>

fun day_loop :: "rat \<Rightarrow> nat \<Rightarrow> rat list \<Rightarrow> rat \<Rightarrow> int list \<times> rat list" where
  "day_loop p 0 cs tot = ([], cs)"
| "day_loop p (Suc n) cs tot =
     (let (daily, cs1) = process_referrers p 0 cs;
          cs2 = add_new_referrers (nat \<lfloor>daily\<rfloor>) cs1;
          tot' = tot + daily
      in if MAX_REFERRERS \<le> length cs2 then ([\<lfloor>tot'\<rfloor>], cs2)
         else (let (cum, cs3) = day_loop p n cs2 tot' in (\<lfloor>tot'\<rfloor> # cum, cs3)))"

text \<open>
  \<^verbatim>\<open>simulate(p, days)\<close>, together with the slot list at the end of the run (which the
  source discards). The duration is capped before the arguments are validated, as in
  the source.
\<close>

definition simulate_run :: "rat \<Rightarrow> int \<Rightarrow> error + (int list \<times> rat list)" where
  "simulate_run p days0 =
     (let days = (if MAX_DAYS < days0 then MAX_DAYS else days0)
      in if p < 0 \<or> 1 < p then Inl InvalidProbability
         else if days < 0 then Inl InvalidDuration
         else Inr (day_loop p (nat days) (replicate initialActiveReferrers 0) 0))"

definition simulate :: "rat \<Rightarrow> int \<Rightarrow> error + int list" where
  "simulate p days = map_sum id fst (simulate_run p days)"


text \<open>
  \<^verbatim>\<open>result[result.length - 1] >= target\<close> and \<^verbatim>\<open>result[result.length - 1] < target\<close>.
  On an empty array the element read is \<^verbatim>\<open>undefined\<close>, and both comparisons are false.
\<close>

definition last_reaches :: "int list \<Rightarrow> int \<Rightarrow> bool" where
  "last_reaches result target = (result \<noteq> [] \<and> target \<le> last result)"


text \<open>
  The result of \<^verbatim>\<open>daysToTarget\<close>: a day count, or JavaScript's \<^verbatim>\<open>Infinity\<close>.
\<close>

datatype day_count = Days int | Infinity

text \<open>The binary search loop of \<^verbatim>\<open>daysToTarget\<close> on \<^verbatim>\<open>left\<close> and \<^verbatim>\<open>right\<close>.\<close>

function days_search :: "rat \<Rightarrow> int \<Rightarrow> int \<Rightarrow> int \<Rightarrow> error + int" where
  "days_search p targetTotal left right =
     (if left < right
      then (let mid = (left + right) div 2
            in case simulate p mid of
                 Inl e \<Rightarrow> Inl e
               | Inr result \<Rightarrow>
                   if last_reaches result targetTotal
                   then days_search p targetTotal left mid
                   else days_search p targetTotal (mid + 1) right)
      else Inr left)"
  by pat_completeness auto
termination
  by (relation "measure (\<lambda>(p, t, l, r). nat (r - l))") auto

declare days_search.simps [simp del]

definition daysToTarget :: "rat \<Rightarrow> int \<Rightarrow> error + day_count" where
  "daysToTarget p targetTotal =
     (if p < 0 \<or> 1 < p then Inl InvalidProbability
      else if targetTotal < 0 then Inl InvalidTarget
      else if targetTotal = 0 then Inr (Days 0)
      else if p = 0 then Inr Infinity
      else map_sum id Days (days_search p targetTotal 0 (max 1 targetTotal)))"

text \<open>
  Whether \<^verbatim>\<open>simulate(p, days)\<close> returns a sequence whose last entry is at least the
  target.
\<close>

definition reaches_within :: "rat \<Rightarrow> int \<Rightarrow> int \<Rightarrow> bool" where
  "reaches_within p targetTotal days =
     (case simulate p days of Inl e \<Rightarrow> False | Inr result \<Rightarrow> last_reaches result targetTotal)"

text \<open>
  The bisection loop of \<^verbatim>\<open>minBonusForTarget\<close> on \<^verbatim>\<open>minBonus\<close> and \<^verbatim>\<open>maxBonus\<close>. The
  interval is halved until it is no wider than \<open>eps\<close>; nothing in the loop itself
  bounds the number of rounds, so a run that does not return is the value \<open>None\<close>.
\<close>

partial_function (option) bonus_search ::
  "int \<Rightarrow> int \<Rightarrow> (rat \<Rightarrow> rat) \<Rightarrow> rat \<Rightarrow> rat \<Rightarrow> rat \<Rightarrow> (error + rat \<times> rat) option" where
  "bonus_search days targetHires adoptionProb eps minBonus maxBonus =
     (if eps < maxBonus - minBonus
      then (let midBonus = (minBonus + maxBonus) / 2;
                prob = adoptionProb midBonus
            in if 0 < prob
               then (case simulate prob days of
                       Inl e \<Rightarrow> Some (Inl e)
                     | Inr result \<Rightarrow>
                         if last_reaches result targetHires
                         then bonus_search days targetHires adoptionProb eps minBonus midBonus
                         else bonus_search days targetHires adoptionProb eps midBonus maxBonus)
               else bonus_search days targetHires adoptionProb eps midBonus maxBonus)
      else Some (Inr (minBonus, maxBonus)))"




section \<open>Referral network (class \<^verbatim>\<open>ReferralNetwork\<close>)\<close>

text \<open>
  A JavaScript \<^verbatim>\<open>Map\<close> iterates in insertion order and keeps the position of a key
  whose value is replaced; it is modelled as an association list read with
  \<^const>\<open>map_of\<close> and written with \<^const>\<open>AList.update\<close>. A \<^verbatim>\<open>Set\<close> that is iterated
  is a list without duplicates in insertion order (\<open>set_add\<close>); a \<^verbatim>\<open>Set\<close> that is only
  tested for membership is a HOL set. User identifiers are any type \<open>'a\<close>.
\<close>

record 'a network =
  graph :: "('a \<times> 'a list) list"
  users :: "'a list"
  directReferrals :: "('a \<times> 'a list) list"
  referrerOf :: "('a \<times> 'a) list"

text \<open>The constructor.\<close>

definition empty_network :: "'a network" where
  "empty_network = \<lparr>graph = [], users = [], directReferrals = [], referrerOf = []\<rparr>"

text \<open>\<^verbatim>\<open>Set.prototype.add\<close> on an insertion-ordered set.\<close>

definition set_add :: "'a \<Rightarrow> 'a list \<Rightarrow> 'a list" where
  "set_add x xs = (if x \<in> set xs then xs else xs @ [x])"

text \<open>
  \<^verbatim>\<open>addUser\<close>: the user joins the set; an adjacency array and a direct-referral set
  are created unless the maps already have the key.
\<close>

definition addUser :: "'a network \<Rightarrow> 'a \<Rightarrow> 'a network" where
  "addUser s userId =
     (let s1 = s\<lparr>users := set_add userId (users s)\<rparr>;
          s2 = (if map_of (graph s1) userId = None
                then s1\<lparr>graph := AList.update userId [] (graph s1)\<rparr> else s1)
      in if map_of (directReferrals s2) userId = None
         then s2\<lparr>directReferrals := AList.update userId [] (directReferrals s2)\<rparr> else s2)"

text \<open>\<^verbatim>\<open>this.graph.get(node) || []\<close>\<close>

definition neighbors :: "('a \<times> 'a list) list \<Rightarrow> 'a \<Rightarrow> 'a list" where
  "neighbors g node = (case map_of g node of None \<Rightarrow> [] | Some ns \<Rightarrow> ns)"

text \<open>
  Every node that occurs in the adjacency map, as a key or in an array. The traversals
  below terminate because this set is finite.
\<close>

definition nodes_of :: "('a \<times> 'a list) list \<Rightarrow> 'a set" where
  "nodes_of g = fst ` set g \<union> (\<Union>(k, ns)\<in>set g. set ns)"

text \<open>The referral edges of an adjacency map.\<close>

definition edges :: "('a \<times> 'a list) list \<Rightarrow> ('a \<times> 'a) set" where
  "edges g = {(x, y). y \<in> set (neighbors g x)}"

text \<open>
  The closure \<^verbatim>\<open>dfs\<close> inside \<^verbatim>\<open>wouldCreateCycle\<close>, with the \<^verbatim>\<open>visited\<close> set it shares
  across calls passed in and returned. \<open>dfs_neighbors\<close> is its loop over \<^verbatim>\<open>neighbors\<close>,
  which returns as soon as one recursive call has returned true.
\<close>

function dfs :: "('a \<times> 'a list) list \<Rightarrow> 'a \<Rightarrow> 'a set \<Rightarrow> 'a \<Rightarrow> bool \<times> 'a set"
  and dfs_neighbors :: "('a \<times> 'a list) list \<Rightarrow> 'a \<Rightarrow> 'a set \<Rightarrow> 'a list \<Rightarrow> bool \<times> 'a set"
  where
  "dfs g referrerId visited node =
     (if node = referrerId then (True, visited)
      else if node \<in> visited then (False, visited)
      else dfs_neighbors g referrerId (insert node visited) (neighbors g node))"
| "dfs_neighbors g referrerId visited [] = (False, visited)"
| "dfs_neighbors g referrerId visited (neighbor # rest) =
     (let (found, visited') = dfs g referrerId visited neighbor
      in if found then (True, visited') else dfs_neighbors g referrerId visited' rest)"
  by pat_completeness auto

text \<open>
  Termination: a call either visits a node of the adjacency map that was not visited
  before, or works on a shorter list of neighbours; the inner call never forgets a
  visited node.
\<close>

lemma dfs_visited_grows:
  "dfs_dfs_neighbors_dom (Inl (g, r, visited, node)) \<Longrightarrow> visited \<subseteq> snd (dfs g r visited node)"
  "dfs_dfs_neighbors_dom (Inr (g, r, visited, ns)) \<Longrightarrow> visited \<subseteq> snd (dfs_neighbors g r visited ns)"
proof (induction g r visited node and g r visited ns rule: dfs_dfs_neighbors.pinduct)
  case (1 g r visited node)
  then show ?case by (auto simp: dfs.psimps)
next
  case (2 g r visited)
  then show ?case by (simp add: dfs_neighbors.psimps)
next
  case (3 g r visited neighbor rest)
  obtain found v where d: "dfs g r visited neighbor = (found, v)" by force
  have v: "visited \<subseteq> v" using "3.IH"(1) d by simp
  show ?case
  proof (cases found)
    case True
    with d v "3.hyps" show ?thesis by (simp add: dfs_neighbors.psimps)
  next
    case False
    have "v \<subseteq> snd (dfs_neighbors g r v rest)"
      using "3.IH"(2)[OF d[symmetric] refl False] .
    with d v False "3.hyps" show ?thesis by (auto simp: dfs_neighbors.psimps)
  qed
qed

lemma finite_nodes_of: "finite (nodes_of g)"
  by (auto simp: nodes_of_def)

lemma neighbors_outside: "node \<notin> nodes_of g \<Longrightarrow> neighbors g node = []"
  by (auto simp: neighbors_def nodes_of_def split: option.splits dest!: map_of_SomeD)
     (metis fst_conv image_eqI)

lemma card_unvisited_mono: "v \<subseteq> v' \<Longrightarrow> card (nodes_of g - v') \<le> card (nodes_of g - v)"
  by (intro card_mono) (auto simp: finite_nodes_of)

lemma card_unvisited_less:
  "node \<in> nodes_of g \<Longrightarrow> node \<notin> v \<Longrightarrow> card (nodes_of g - insert node v) < card (nodes_of g - v)"
  by (intro psubset_card_mono) (auto simp: finite_nodes_of)

termination dfs
proof (relation "inv_image (less_than <*lex*> less_than)
    (\<lambda>x. case x of
         Inl (g, r, visited, node) \<Rightarrow> (card (nodes_of g - visited), 1)
       | Inr (g, r, visited, ns) \<Rightarrow> (card (nodes_of g - visited), 2 * length ns))", goal_cases)
  case 1
  then show ?case by auto
next
  case (2 g r visited node)
  show ?case
  proof (cases "node \<in> nodes_of g")
    case True
    with 2 have "card (nodes_of g - insert node visited) < card (nodes_of g - visited)"
      by (intro card_unvisited_less)
    then show ?thesis by simp
  next
    case False
    then have "nodes_of g - insert node visited = nodes_of g - visited" by auto
    with False show ?thesis by (simp add: neighbors_outside)
  qed
next
  case (3 g r visited neighbor rest)
  then show ?case by simp
next
  case (4 g r visited neighbor rest x y z)
  then have "visited \<subseteq> z"
    using dfs_visited_grows(1)[of g r visited neighbor] by (metis snd_conv)
  then have "card (nodes_of g - z) \<le> card (nodes_of g - visited)" by (rule card_unvisited_mono)
  then show ?case by auto
qed

declare dfs.simps [simp del]

text \<open>\<^verbatim>\<open>wouldCreateCycle\<close> starts the search at the candidate with nothing visited.\<close>

definition wouldCreateCycle :: "'a network \<Rightarrow> 'a \<Rightarrow> 'a \<Rightarrow> bool" where
  "wouldCreateCycle s referrerId candidateId = fst (dfs (graph s) referrerId {} candidateId)"

text \<open>
  \<^verbatim>\<open>addReferral\<close>. \<open>Inl\<close> is a thrown error; \<open>Inr (b, s')\<close> is the returned boolean with
  the state after the call. The two \<open>TypeError\<close> branches are the calls
  \<^verbatim>\<open>this.graph.get(referrerId).push\<close> and \<^verbatim>\<open>this.directReferrals.get(referrerId).add\<close> on
  a map without the key.
\<close>

definition addReferral :: "'a network \<Rightarrow> 'a \<Rightarrow> 'a \<Rightarrow> error + bool \<times> 'a network" where
  "addReferral s referrerId candidateId =
     (if referrerId \<notin> set (users s) then Inl UnknownUser
      else if candidateId \<notin> set (users s) then Inl UnknownUser
      else if referrerId = candidateId then Inr (False, s)
      else if map_of (referrerOf s) candidateId \<noteq> None then Inr (False, s)
      else if wouldCreateCycle s referrerId candidateId then Inr (False, s)
      else (case map_of (graph s) referrerId of
              None \<Rightarrow> Inl TypeError
            | Some referred \<Rightarrow>
                (case map_of (directReferrals s) referrerId of
                   None \<Rightarrow> Inl TypeError
                 | Some direct \<Rightarrow>
                     Inr (True,
                       s\<lparr>graph := AList.update referrerId (referred @ [candidateId]) (graph s),
                         directReferrals :=
                           AList.update referrerId (set_add candidateId direct) (directReferrals s),
                         referrerOf := AList.update candidateId referrerId (referrerOf s)\<rparr>))))"

text \<open>\<^verbatim>\<open>getDirectReferrals\<close>: the direct-referral set as an array.\<close>

definition getDirectReferrals :: "'a network \<Rightarrow> 'a \<Rightarrow> error + 'a list" where
  "getDirectReferrals s userId =
     (if userId \<notin> set (users s) then Inl UnknownUser
      else Inr (case map_of (directReferrals s) userId of None \<Rightarrow> [] | Some directRefs \<Rightarrow> directRefs))"

text \<open>Facts used by the termination proofs of the breadth-first traversals.\<close>

lemma neighbors_in_nodes:
  assumes "n \<in> set (neighbors g x)"
  shows "n \<in> nodes_of g"
proof (cases "map_of g x")
  case None
  with assms show ?thesis by (simp add: neighbors_def)
next
  case (Some ns)
  then have "(x, ns) \<in> set g" by (rule map_of_SomeD)
  moreover from Some assms have "n \<in> set ns" by (simp add: neighbors_def)
  ultimately show ?thesis unfolding nodes_of_def by blast
qed

text \<open>
  \<^verbatim>\<open>totalReferrals\<close>: the loop over the neighbours of the dequeued node, and the loop
  on the queue. \<open>cnt\<close> is the variable \<^verbatim>\<open>count\<close>.
\<close>

fun count_neighbors :: "'a list \<Rightarrow> 'a list \<Rightarrow> 'a set \<Rightarrow> nat \<Rightarrow> 'a list \<times> 'a set \<times> nat" where
  "count_neighbors [] queue visited cnt = (queue, visited, cnt)"
| "count_neighbors (neighbor # rest) queue visited cnt =
     (if neighbor \<notin> visited
      then count_neighbors rest (queue @ [neighbor]) (insert neighbor visited) (Suc cnt)
      else count_neighbors rest queue visited cnt)"

lemma count_neighbors_result:
  "\<exists>new. count_neighbors ns queue visited cnt = (queue @ new, visited \<union> set ns, cnt + length new)
         \<and> set new = set ns - visited \<and> distinct new"
proof (induction ns arbitrary: queue visited cnt)
  case Nil
  then show ?case by simp
next
  case (Cons n ns)
  show ?case
  proof (cases "n \<in> visited")
    case True
    from Cons.IH[of queue visited cnt] obtain new where
      "count_neighbors ns queue visited cnt = (queue @ new, visited \<union> set ns, cnt + length new)"
      "set new = set ns - visited" "distinct new" by blast
    with True show ?thesis by (intro exI[of _ new]) auto
  next
    case False
    from Cons.IH[of "queue @ [n]" "insert n visited" "Suc cnt"] obtain new where
      "count_neighbors ns (queue @ [n]) (insert n visited) (Suc cnt) =
         ((queue @ [n]) @ new, insert n visited \<union> set ns, Suc cnt + length new)"
      "set new = set ns - insert n visited" "distinct new" by blast
    with False show ?thesis by (intro exI[of _ "n # new"]) auto
  qed
qed

function count_loop :: "('a \<times> 'a list) list \<Rightarrow> 'a list \<Rightarrow> 'a set \<Rightarrow> nat \<Rightarrow> nat" where
  "count_loop g [] visited cnt = cnt"
| "count_loop g (current # queue) visited cnt =
     (let (queue', visited', cnt') = count_neighbors (neighbors g current) queue visited cnt
      in count_loop g queue' visited' cnt')"
  by pat_completeness auto

lemma bfs_step_decreases:
  assumes "set new = set (neighbors g current) - visited"
  shows "((card (nodes_of g - (visited \<union> set (neighbors g current))), length (queue @ new)),
          (card (nodes_of g - visited), length (current # queue)))
         \<in> less_than <*lex*> less_than"
proof (cases "new = []")
  case True
  with assms have "visited \<union> set (neighbors g current) = visited" by auto
  with True show ?thesis by simp
next
  case False
  then obtain n where n: "n \<in> set new" by (cases new) auto
  with assms have nn: "n \<in> set (neighbors g current)" "n \<notin> visited" by auto
  then have "n \<in> nodes_of g" by (simp add: neighbors_in_nodes)
  with nn have "nodes_of g - (visited \<union> set (neighbors g current)) \<subset> nodes_of g - visited"
    by auto
  then have "card (nodes_of g - (visited \<union> set (neighbors g current))) < card (nodes_of g - visited)"
    by (intro psubset_card_mono) (auto simp: finite_nodes_of)
  then show ?thesis by simp
qed

termination count_loop
proof (relation "inv_image (less_than <*lex*> less_than)
    (\<lambda>(g, queue, visited, cnt). (card (nodes_of g - visited), length queue))", goal_cases)
  case 1
  then show ?case by auto
next
  case (2 g current queue visited cnt x queue' y visited' cnt')
  obtain new where new:
    "count_neighbors (neighbors g current) queue visited cnt =
       (queue @ new, visited \<union> set (neighbors g current), cnt + length new)"
    "set new = set (neighbors g current) - visited"
    using count_neighbors_result[of "neighbors g current" queue visited cnt] by blast
  with 2 have "queue' = queue @ new" "visited' = visited \<union> set (neighbors g current)" by auto
  with bfs_step_decreases[OF new(2), of queue] show ?case by simp
qed

definition totalReferrals :: "'a network \<Rightarrow> 'a \<Rightarrow> error + nat" where
  "totalReferrals s userId =
     (if userId \<notin> set (users s) then Inl UnknownUser
      else Inr (count_loop (graph s) [userId] {userId} 0))"

text \<open>
  \<^verbatim>\<open>getReachSet\<close>: the same traversal, collecting the \<^verbatim>\<open>reachable\<close> set in insertion
  order.
\<close>

fun reach_neighbors :: "'a list \<Rightarrow> 'a list \<Rightarrow> 'a list \<Rightarrow> 'a list \<times> 'a list" where
  "reach_neighbors [] queue reachable = (queue, reachable)"
| "reach_neighbors (neighbor # rest) queue reachable =
     (if neighbor \<notin> set reachable
      then reach_neighbors rest (queue @ [neighbor]) (reachable @ [neighbor])
      else reach_neighbors rest queue reachable)"

lemma reach_neighbors_result:
  "\<exists>new. reach_neighbors ns queue reachable = (queue @ new, reachable @ new)
         \<and> set new = set ns - set reachable \<and> distinct new"
proof (induction ns arbitrary: queue reachable)
  case Nil
  then show ?case by simp
next
  case (Cons n ns)
  show ?case
  proof (cases "n \<in> set reachable")
    case True
    from Cons.IH[of queue reachable] obtain new where
      "reach_neighbors ns queue reachable = (queue @ new, reachable @ new)"
      "set new = set ns - set reachable" "distinct new" by blast
    with True show ?thesis by (intro exI[of _ new]) auto
  next
    case False
    from Cons.IH[of "queue @ [n]" "reachable @ [n]"] obtain new where
      "reach_neighbors ns (queue @ [n]) (reachable @ [n]) =
         ((queue @ [n]) @ new, (reachable @ [n]) @ new)"
      "set new = set ns - set (reachable @ [n])" "distinct new" by blast
    with False show ?thesis by (intro exI[of _ "n # new"]) auto
  qed
qed

function reach_loop :: "('a \<times> 'a list) list \<Rightarrow> 'a list \<Rightarrow> 'a list \<Rightarrow> 'a list" where
  "reach_loop g [] reachable = reachable"
| "reach_loop g (current # queue) reachable =
     (let (queue', reachable') = reach_neighbors (neighbors g current) queue reachable
      in reach_loop g queue' reachable')"
  by pat_completeness auto

termination reach_loop
proof (relation "inv_image (less_than <*lex*> less_than)
    (\<lambda>(g, queue, reachable). (card (nodes_of g - set reachable), length queue))", goal_cases)
  case 1
  then show ?case by auto
next
  case (2 g current queue reachable x queue' reachable')
  obtain new where new:
    "reach_neighbors (neighbors g current) queue reachable = (queue @ new, reachable @ new)"
    "set new = set (neighbors g current) - set reachable"
    using reach_neighbors_result[of "neighbors g current" queue reachable] by blast
  with 2 have q: "queue' = queue @ new" "reachable' = reachable @ new" by auto
  have "set reachable' = set reachable \<union> set (neighbors g current)"
    using q new(2) by auto
  with bfs_step_decreases[OF new(2), of queue] q show ?case by simp
qed

definition getReachSet :: "'a network \<Rightarrow> 'a \<Rightarrow> 'a list" where
  "getReachSet s userId = reach_loop (graph s) [userId] [userId]"

text \<open>
  \<^verbatim>\<open>bfsShortestPaths\<close>. A recorded distance is a JavaScript number;
  \<^verbatim>\<open>distances.get(current) + 1\<close> is \<^verbatim>\<open>NaN\<close> when \<^verbatim>\<open>current\<close> has no entry.
\<close>

datatype dist = Dist nat | NaN







text \<open>
  \<^verbatim>\<open>uniqueReachExpansion\<close>. The map \<^verbatim>\<open>reachSets\<close> holds \<^verbatim>\<open>getReachSet(user)\<close> for every
  user and is read at users only, so it is the function it tabulates. \<open>consider_user\<close>
  is the body of the loop that looks for the best user (its state is \<^verbatim>\<open>bestUser\<close>,
  \<^verbatim>\<open>bestCoverage\<close>), \<open>add_remaining\<close> the loop that appends the users not yet selected,
  \<open>greedy_select\<close> the \<^verbatim>\<open>while\<close> loop.
\<close>

definition consider_user ::
  "('a \<Rightarrow> 'a list) \<Rightarrow> 'a list \<Rightarrow> 'a set \<Rightarrow> 'a \<Rightarrow> 'a option \<times> nat \<Rightarrow> 'a option \<times> nat" where
  "consider_user reachSets selected covered user best =
     (if user \<in> set selected then best
      else (let newCoverage = filter (\<lambda>x. x \<notin> covered) (reachSets user)
            in if snd best < length newCoverage then (Some user, length newCoverage) else best))"

definition add_remaining :: "'a list \<Rightarrow> 'a list \<Rightarrow> 'a list" where
  "add_remaining us selected =
     fold (\<lambda>user sel. if user \<notin> set sel then sel @ [user] else sel) us selected"

function greedy_select ::
  "'a list \<Rightarrow> ('a \<Rightarrow> 'a list) \<Rightarrow> 'a list \<Rightarrow> 'a set \<Rightarrow> 'a list" where
  "greedy_select us reachSets selected covered =
     (if length selected < length us
      then (case fold (consider_user reachSets selected covered) us (None, 0) of
              (None, bestCoverage) \<Rightarrow> add_remaining us selected
            | (Some bestUser, bestCoverage) \<Rightarrow>
                if bestCoverage = 0 then add_remaining us selected
                else greedy_select us reachSets (selected @ [bestUser])
                       (covered \<union> set (reachSets bestUser)))
      else selected)"
  by pat_completeness auto
termination
  by (relation "measure (\<lambda>(us, reachSets, selected, covered). length us - length selected)") auto

declare greedy_select.simps [simp del]

definition uniqueReachExpansion :: "'a network \<Rightarrow> 'a list" where
  "uniqueReachExpansion s =
     (if length (users s) = 0 then []
      else greedy_select (users s) (getReachSet s) [] {})"

text \<open>
  \<^verbatim>\<open>flowCentrality\<close>. \<open>dist_sum_eq\<close> is \<^verbatim>\<open>distSV + distVT === distST\<close>, false as soon as
  one side is \<^verbatim>\<open>NaN\<close>. The maps \<^verbatim>\<open>shortestPaths\<close> and \<^verbatim>\<open>centrality\<close> have the users as
  keys, in the order of \<^verbatim>\<open>this.users\<close>, and are read at users only: they are functions
  here. \<open>credit_node\<close> is the body of the loop on \<open>v\<close>, \<open>credit_pair\<close> the body of the
  loop on \<open>t\<close>. \<^verbatim>\<open>Array.prototype.sort\<close> is stable, as \<^const>\<open>sort_key\<close> is.
\<close>

fun dist_sum_eq :: "dist \<Rightarrow> dist \<Rightarrow> dist \<Rightarrow> bool" where
  "dist_sum_eq (Dist a) (Dist b) (Dist c) = (a + b = c)"
| "dist_sum_eq _ _ _ = False"





text \<open>
  A caller of the class: the two mutating methods, applied in sequence to a fresh
  object. A call that throws leaves the object as it was.
\<close>

datatype 'a call = AddUser 'a | AddReferral 'a 'a

fun apply_call :: "'a network \<Rightarrow> 'a call \<Rightarrow> 'a network" where
  "apply_call s (AddUser userId) = addUser s userId"
| "apply_call s (AddReferral referrerId candidateId) =
     (case addReferral s referrerId candidateId of
        Inl e \<Rightarrow> s
      | Inr (added, s') \<Rightarrow> s')"

definition run_calls :: "'a call list \<Rightarrow> 'a network" where
  "run_calls calls = foldl apply_call empty_network calls"

text \<open>
  What holds of the object after any sequence of calls: the user set has no duplicates,
  every user has an adjacency array, the direct-referral sets hold what the adjacency
  arrays hold, edges join registered users, the reverse map records exactly the edges,
  no array lists a candidate twice, and there is no cycle.
\<close>

definition network_inv :: "'a network \<Rightarrow> bool" where
  "network_inv s \<longleftrightarrow>
     distinct (users s) \<and>
     (\<forall>u\<in>set (users s). map_of (graph s) u \<noteq> None) \<and>
     (\<forall>u. map_of (directReferrals s) u = map_of (graph s) u) \<and>
     (\<forall>x y. (x, y) \<in> edges (graph s) \<longrightarrow> x \<in> set (users s) \<and> y \<in> set (users s)) \<and>
     (\<forall>r c. (r, c) \<in> edges (graph s) \<longleftrightarrow> map_of (referrerOf s) c = Some r) \<and>
     (\<forall>u. distinct (neighbors (graph s) u)) \<and>
     acyclic (edges (graph s))"

text \<open>
  The three updates at the end of \<^verbatim>\<open>addReferral\<close>, written for a state in which the
  referrer's direct-referral set holds what its adjacency array holds.
\<close>

definition commit_edge :: "'a network \<Rightarrow> 'a \<Rightarrow> 'a \<Rightarrow> 'a network" where
  "commit_edge s referrerId candidateId =
     s\<lparr>graph := AList.update referrerId (neighbors (graph s) referrerId @ [candidateId]) (graph s),
       directReferrals :=
         AList.update referrerId (neighbors (graph s) referrerId @ [candidateId]) (directReferrals s),
       referrerOf := AList.update candidateId referrerId (referrerOf s)\<rparr>"



section \<open>Properties of the simulation\<close>


lemma process_referrers_daily:
  "fst (process_referrers p d cs) = d + of_nat (length (filter (\<lambda>c. c < referralCapacity) cs)) * p"
  by (induction cs arbitrary: d) (simp_all add: case_prod_beta algebra_simps)

lemma process_referrers_mono: "0 \<le> p \<Longrightarrow> d \<le> fst (process_referrers p d cs)"
  by (simp add: process_referrers_daily)

lemma process_referrers_zero: "process_referrers 0 d cs = (d, cs)"
  by (induction cs arbitrary: d) auto

lemma process_referrers_active:
  "\<forall>c\<in>set cs. c < referralCapacity \<Longrightarrow>
   process_referrers p d cs = (d + of_nat (length cs) * p, map (\<lambda>c. c + p) cs)"
  by (induction cs arbitrary: d) (auto simp: algebra_simps)





lemma day_loop_lower:
  "0 \<le> p \<Longrightarrow> \<forall>x\<in>set (fst (day_loop p n cs tot)). \<lfloor>tot\<rfloor> \<le> x"
proof (induction n arbitrary: cs tot)
  case 0
  then show ?case by simp
next
  case (Suc n)
  obtain daily cs1 where pr: "process_referrers p 0 cs = (daily, cs1)" by force
  have d0: "0 \<le> daily" using process_referrers_mono[OF Suc.prems, of 0 cs] pr by simp
  then have fl: "\<lfloor>tot\<rfloor> \<le> \<lfloor>tot + daily\<rfloor>" by (simp add: floor_mono)
  let ?cs2 = "add_new_referrers (nat \<lfloor>daily\<rfloor>) cs1"
  have "\<forall>x\<in>set (fst (day_loop p n ?cs2 (tot + daily))). \<lfloor>tot + daily\<rfloor> \<le> x"
    using Suc.IH[OF Suc.prems] by blast
  with fl have "\<forall>x\<in>set (fst (day_loop p n ?cs2 (tot + daily))). \<lfloor>tot\<rfloor> \<le> x" by force
  with pr fl show ?case by (auto simp: Let_def split: prod.splits)
qed

lemma day_loop_sorted: "0 \<le> p \<Longrightarrow> sorted (fst (day_loop p n cs tot))"
proof (induction n arbitrary: cs tot)
  case 0
  then show ?case by simp
next
  case (Suc n)
  obtain daily cs1 where pr: "process_referrers p 0 cs = (daily, cs1)" by force
  let ?cs2 = "add_new_referrers (nat \<lfloor>daily\<rfloor>) cs1"
  have a: "\<forall>x\<in>set (fst (day_loop p n ?cs2 (tot + daily))). \<lfloor>tot + daily\<rfloor> \<le> x"
    using day_loop_lower[OF Suc.prems] by blast
  have b: "sorted (fst (day_loop p n ?cs2 (tot + daily)))" using Suc.IH[OF Suc.prems] .
  from pr a b show ?case by (auto simp: Let_def split: prod.splits)
qed

lemma day_loop_zero:
  "length cs < MAX_REFERRERS \<Longrightarrow> day_loop 0 n cs tot = (replicate n \<lfloor>tot\<rfloor>, cs)"
  by (induction n arbitrary: cs tot) (auto simp: process_referrers_zero)





lemma simulate_run_ok:
  assumes "0 \<le> p" "p \<le> 1" "0 \<le> days"
  shows "simulate_run p days =
           Inr (day_loop p (nat (min days MAX_DAYS)) (replicate initialActiveReferrers 0) 0)"
  using assms by (auto simp: simulate_run_def Let_def min_def MAX_DAYS_def)

lemma sorted_nth_Suc: "sorted (xs::int list) \<Longrightarrow> Suc i < length xs \<Longrightarrow> xs ! i \<le> xs ! Suc i"
  by (simp add: sorted_iff_nth_mono)

text \<open>
  Claim C3. With probability 0 and a positive number of days the simulator returns a
  sequence (of \<open>min n 100\<close> entries) whose entries are all zero; with zero days it
  returns the empty sequence for every valid probability; and for every valid
  probability the returned cumulative sequence never decreases from one day to the next.
\<close>

theorem simulate_boundary:
  "(0 < n \<longrightarrow>
      (\<exists>res. simulate 0 n = Inr res \<and> int (length res) = min n 100 \<and> (\<forall>x\<in>set res. x = 0)))
   \<and> (0 \<le> p \<and> p \<le> 1 \<longrightarrow> simulate p 0 = Inr [])
   \<and> (0 \<le> p \<and> p \<le> 1 \<and> 0 \<le> days \<longrightarrow>
      (\<exists>res. simulate p days = Inr res \<and>
             (\<forall>i. Suc i < length res \<longrightarrow> res ! i \<le> res ! Suc i)))"
proof (intro conjI impI)
  assume n: "0 < n"
  have "simulate 0 n = Inr (replicate (nat (min n 100)) 0)"
    using n by (simp add: simulate_def simulate_run_ok day_loop_zero MAX_DAYS_def
        initialActiveReferrers_def MAX_REFERRERS_def)
  moreover have "int (length (replicate (nat (min n 100)) (0::int))) = min n 100"
    using n by simp
  ultimately show "\<exists>res. simulate 0 n = Inr res \<and> int (length res) = min n 100 \<and> (\<forall>x\<in>set res. x = 0)"
    by fastforce
next
  assume "0 \<le> p \<and> p \<le> 1"
  then show "simulate p 0 = Inr []"
    by (simp add: simulate_def simulate_run_ok)
next
  assume a: "0 \<le> p \<and> p \<le> 1 \<and> 0 \<le> days"
  let ?res = "fst (day_loop p (nat (min days MAX_DAYS)) (replicate initialActiveReferrers 0) 0)"
  have "simulate p days = Inr ?res"
    using a by (simp add: simulate_def simulate_run_ok)
  moreover have "sorted ?res" using a by (simp add: day_loop_sorted)
  ultimately show "\<exists>res. simulate p days = Inr res \<and>
             (\<forall>i. Suc i < length res \<longrightarrow> res ! i \<le> res ! Suc i)"
    using sorted_nth_Suc by blast
qed

theorem simulate_boundary_witness:
  "(\<exists>res. simulate 0 3 = Inr res \<and> int (length res) = 3 \<and> (\<forall>x\<in>set res. x = 0))
   \<and> simulate (1/2) 0 = Inr []
   \<and> (\<exists>res. simulate (1/2) 2 = Inr res \<and>
             (\<forall>i. Suc i < length res \<longrightarrow> res ! i \<le> res ! Suc i))"
  using simulate_boundary[of 3 "1/2" 2] by simp



lemma simulate_ok:
  "0 \<le> p \<Longrightarrow> p \<le> 1 \<Longrightarrow> 0 \<le> days \<Longrightarrow> \<exists>res. simulate p days = Inr res"
  by (simp add: simulate_def simulate_run_ok)



lemma map_upt_Suc_shift: "map f [0..<Suc n] = f 0 # map (\<lambda>i. f (Suc i)) [0..<n]"
  by (simp add: map_upt_Suc del: upt_Suc)

lemma day_loop_no_growth:
  "0 \<le> p \<Longrightarrow> of_nat (length cs) * p < 1 \<Longrightarrow> length cs < MAX_REFERRERS \<Longrightarrow>
   \<forall>c\<in>set cs. c + of_nat n * p < referralCapacity \<Longrightarrow>
   fst (day_loop p n cs tot) =
     map (\<lambda>i. \<lfloor>tot + of_nat (Suc i) * (of_nat (length cs) * p)\<rfloor>) [0..<n]"
proof (induction n arbitrary: cs tot)
  case 0
  then show ?case by simp
next
  case (Suc n)
  let ?daily = "of_nat (length cs) * p"
  let ?cs1 = "map (\<lambda>c. c + p) cs"
  have act: "\<forall>c\<in>set cs. c < referralCapacity"
  proof
    fix c assume "c \<in> set cs"
    then have "c + of_nat (Suc n) * p < referralCapacity" using Suc.prems(4) by blast
    moreover have "0 \<le> of_nat (Suc n) * p" using Suc.prems(1) by simp
    ultimately show "c < referralCapacity" by linarith
  qed
  have pr: "process_referrers p 0 cs = (?daily, ?cs1)"
    using process_referrers_active[OF act, of p 0] by simp
  have d0: "0 \<le> ?daily" using Suc.prems(1) by simp
  have fl: "\<lfloor>?daily\<rfloor> = 0" using d0 Suc.prems(2) by (simp add: floor_eq_iff)
  have nxt: "\<forall>c\<in>set ?cs1. c + of_nat n * p < referralCapacity"
    using Suc.prems(4) by (auto simp: algebra_simps)
  have ih: "fst (day_loop p n ?cs1 (tot + ?daily)) =
     map (\<lambda>i. \<lfloor>tot + ?daily + of_nat (Suc i) * (of_nat (length ?cs1) * p)\<rfloor>) [0..<n]"
    using Suc.IH[of ?cs1 "tot + ?daily"] Suc.prems(1,2,3) nxt by simp
  have "fst (day_loop p (Suc n) cs tot) = \<lfloor>tot + ?daily\<rfloor> # fst (day_loop p n ?cs1 (tot + ?daily))"
    using pr fl Suc.prems(3) by (simp add: Let_def case_prod_beta)
  also have "\<dots> = map (\<lambda>i. \<lfloor>tot + of_nat (Suc i) * ?daily\<rfloor>) [0..<Suc n]"
    unfolding ih map_upt_Suc_shift by (simp add: algebra_simps)
  finally show ?case .
qed

lemma simulate_no_growth:
  assumes "0 \<le> p" "100 * p < 1" "0 \<le> d"
  shows "simulate p d = Inr (map (\<lambda>i. \<lfloor>of_nat (Suc i) * (100 * p)\<rfloor>) [0..<nat (min d 100)])"
proof -
  let ?n = "nat (min d 100)"
  have n: "of_nat ?n * p \<le> 100 * p"
    using assms(1) by (intro mult_right_mono) auto
  have "fst (day_loop p ?n (replicate 100 0) 0) =
      map (\<lambda>i. \<lfloor>0 + of_nat (Suc i) * (of_nat (length (replicate 100 (0::rat))) * p)\<rfloor>) [0..<?n]"
    using assms n
    by (intro day_loop_no_growth) (auto simp: MAX_REFERRERS_def referralCapacity_def)
  then show ?thesis
    using assms by (simp add: simulate_def simulate_run_ok MAX_DAYS_def initialActiveReferrers_def)
qed




lemma simulate_slow_2: "simulate (1/128) 2 = Inr [0, 1]"
  by (simp add: simulate_no_growth upt_rec numeral_2_eq_2 floor_eq_iff)

lemma simulate_slow_3: "simulate (1/128) 3 = Inr [0, 1, 2]"
  by (simp add: simulate_no_growth upt_rec numeral_3_eq_3 floor_eq_iff)

lemma simulate_slow_1: "simulate (1/128) 1 = Inr [0]"
  by (simp add: simulate_no_growth upt_rec floor_eq_iff)


text \<open>
  What \<^verbatim>\<open>daysToTarget\<close> does achieve: reaching the target is monotone in the number
  of days, so when the target is reached within \<open>max 1 targetTotal\<close> days the search
  returns the least day count that reaches it.
\<close>

lemma day_loop_extends:
  "\<exists>ys. fst (day_loop p (Suc n) cs tot) = fst (day_loop p n cs tot) @ ys"
proof (induction n arbitrary: cs tot)
  case 0
  show ?case by simp
next
  case (Suc n)
  obtain daily cs1 where pr: "process_referrers p 0 cs = (daily, cs1)" by force
  let ?cs2 = "add_new_referrers (nat \<lfloor>daily\<rfloor>) cs1"
  show ?case
  proof (cases "MAX_REFERRERS \<le> length ?cs2")
    case True
    have "fst (day_loop p (Suc (Suc n)) cs tot) = [\<lfloor>tot + daily\<rfloor>]"
      using pr True by (simp add: day_loop.simps(2)[of p "Suc n"] Let_def)
    moreover have "fst (day_loop p (Suc n) cs tot) = [\<lfloor>tot + daily\<rfloor>]"
      using pr True by (simp add: Let_def)
    ultimately show ?thesis by simp
  next
    case False
    from Suc.IH[of ?cs2 "tot + daily"] obtain ys where
      ys: "fst (day_loop p (Suc n) ?cs2 (tot + daily)) = fst (day_loop p n ?cs2 (tot + daily)) @ ys"
      by blast
    have a: "fst (day_loop p (Suc (Suc n)) cs tot) =
        \<lfloor>tot + daily\<rfloor> # fst (day_loop p (Suc n) ?cs2 (tot + daily))"
      using pr False by (simp add: day_loop.simps(2)[of p "Suc n"] Let_def case_prod_beta)
    have b: "fst (day_loop p (Suc n) cs tot) =
        \<lfloor>tot + daily\<rfloor> # fst (day_loop p n ?cs2 (tot + daily))"
      using pr False by (simp add: Let_def case_prod_beta)
    show ?thesis unfolding a b ys by simp
  qed
qed

lemma last_reaches_extend:
  assumes "sorted (xs @ ys)" "last_reaches xs t"
  shows "last_reaches (xs @ ys) t"
proof (cases ys)
  case Nil
  with assms show ?thesis by simp
next
  case (Cons y ys')
  from assms(2) have ne: "xs \<noteq> []" and t: "t \<le> last xs" by (simp_all add: last_reaches_def)
  have "last xs \<in> set xs" using ne by simp
  moreover have "last (xs @ ys) \<in> set ys" using Cons by simp
  ultimately have "last xs \<le> last (xs @ ys)" using assms(1) by (simp add: sorted_append)
  with t Cons show ?thesis by (simp add: last_reaches_def)
qed

lemma day_loop_reach_mono:
  assumes "0 \<le> p" "last_reaches (fst (day_loop p n cs tot)) t"
  shows "last_reaches (fst (day_loop p (n + k) cs tot)) t"
proof (induction k)
  case 0
  with assms show ?case by simp
next
  case (Suc k)
  obtain ys where "fst (day_loop p (Suc (n + k)) cs tot) = fst (day_loop p (n + k) cs tot) @ ys"
    using day_loop_extends by blast
  moreover have "sorted (fst (day_loop p (Suc (n + k)) cs tot))"
    using assms(1) by (rule day_loop_sorted)
  ultimately show ?case using Suc last_reaches_extend by (metis add_Suc_right)
qed

lemma reaches_within_mono:
  assumes p: "0 \<le> p" "p \<le> 1" and d: "0 \<le> d" "d \<le> d'" and r: "reaches_within p t d"
  shows "reaches_within p t d'"
proof -
  let ?n = "nat (min d MAX_DAYS)" and ?n' = "nat (min d' MAX_DAYS)"
  have le: "?n \<le> ?n'" using d by simp
  then obtain k where k: "?n' = ?n + k" using le_Suc_ex by blast
  have "last_reaches (fst (day_loop p ?n (replicate initialActiveReferrers 0) 0)) t"
    using r p d by (simp add: reaches_within_def simulate_def simulate_run_ok)
  then have "last_reaches (fst (day_loop p ?n' (replicate initialActiveReferrers 0) 0)) t"
    unfolding k using p(1) by (intro day_loop_reach_mono)
  then show ?thesis
    using p d by (simp add: reaches_within_def simulate_def simulate_run_ok)
qed

lemma days_search_least:
  "0 \<le> p \<Longrightarrow> p \<le> 1 \<Longrightarrow> 0 \<le> l \<Longrightarrow> l \<le> r \<Longrightarrow> reaches_within p t r \<Longrightarrow>
   \<forall>d. 0 \<le> d \<and> d < l \<longrightarrow> \<not> reaches_within p t d \<Longrightarrow>
   \<exists>m. days_search p t l r = Inr m \<and> reaches_within p t m \<and>
       (\<forall>d. 0 \<le> d \<and> d < m \<longrightarrow> \<not> reaches_within p t d)"
proof (induction p t l r rule: days_search.induct)
  case (1 p t l r)
  show ?case
  proof (cases "l < r")
    case False
    then have "days_search p t l r = Inr l" by (subst days_search.simps) simp
    moreover from False "1.prems" have "l = r" by simp
    ultimately show ?thesis using "1.prems" by blast
  next
    case True
    let ?mid = "(l + r) div 2"
    have mid: "l \<le> ?mid" "?mid < r" "0 \<le> ?mid" using True "1.prems" by auto
    obtain res where res: "simulate p ?mid = Inr res"
      using simulate_ok[OF "1.prems"(1,2) mid(3)] by blast
    show ?thesis
    proof (cases "last_reaches res t")
      case reach: True
      then have rm: "reaches_within p t ?mid" using res by (simp add: reaches_within_def)
      from "1.IH"(1)[OF True refl res reach "1.prems"(1,2,3) mid(1) rm "1.prems"(6)]
      obtain m where "days_search p t l ?mid = Inr m" "reaches_within p t m"
        "\<forall>d. 0 \<le> d \<and> d < m \<longrightarrow> \<not> reaches_within p t d" by blast
      moreover have "days_search p t l r = days_search p t l ?mid"
        using True res reach by (subst days_search.simps) (simp add: Let_def)
      ultimately show ?thesis by (metis (lifting))
    next
      case miss: False
      then have nm: "\<not> reaches_within p t ?mid" using res by (simp add: reaches_within_def)
      have below: "\<forall>d. 0 \<le> d \<and> d < ?mid + 1 \<longrightarrow> \<not> reaches_within p t d"
      proof (intro allI impI)
        fix d assume d: "0 \<le> d \<and> d < ?mid + 1"
        show "\<not> reaches_within p t d"
        proof
          assume "reaches_within p t d"
          then have "reaches_within p t ?mid"
            using reaches_within_mono[OF "1.prems"(1,2), of d ?mid t] d by simp
          with nm show False by simp
        qed
      qed
      have "0 \<le> ?mid + 1" "?mid + 1 \<le> r" using mid by auto
      from "1.IH"(2)[OF True refl res miss "1.prems"(1,2) this "1.prems"(5) below]
      obtain m where "days_search p t (?mid + 1) r = Inr m" "reaches_within p t m"
        "\<forall>d. 0 \<le> d \<and> d < m \<longrightarrow> \<not> reaches_within p t d" by blast
      moreover have "days_search p t l r = days_search p t (?mid + 1) r"
        using True res miss by (subst days_search.simps) (simp add: Let_def)
      ultimately show ?thesis by (metis (lifting))
    qed
  qed
qed

lemma daysToTarget_within_bound:
  assumes "0 < p" "p \<le> 1" "0 < targetTotal"
    and "reaches_within p targetTotal (max 1 targetTotal)"
  shows "\<exists>m. daysToTarget p targetTotal = Inr (Days m) \<and> reaches_within p targetTotal m \<and>
       (\<forall>d. 0 \<le> d \<and> d < m \<longrightarrow> \<not> reaches_within p targetTotal d)"
proof -
  have b: "(0::int) \<le> max 1 targetTotal" by simp
  have none: "\<forall>d. 0 \<le> d \<and> d < (0::int) \<longrightarrow> \<not> reaches_within p targetTotal d" by auto
  have p0: "0 \<le> p" using assms(1) by simp
  from days_search_least[OF p0 assms(2) order_refl b assms(4) none]
  obtain m where "days_search p targetTotal 0 (max 1 targetTotal) = Inr m"
    "reaches_within p targetTotal m"
    "\<forall>d. 0 \<le> d \<and> d < m \<longrightarrow> \<not> reaches_within p targetTotal d" by blast
  with assms show ?thesis by (simp add: daysToTarget_def)
qed

text \<open>
  Claim C4, evaluated where it fails. With probability 1/128 the target 2 is reached
  on day 3, but the search looks only at day counts up to \<open>max 1 targetTotal = 2\<close> and
  returns 2, a day count at which the simulation has reached 1 only.
\<close>

theorem daysToTarget_misses_reachable_target:
  "daysToTarget (1/128) 2 = Inr (Days 2) \<and> simulate (1/128) 2 = Inr [0, 1] \<and>
   \<not> last_reaches [0, 1] 2 \<and> simulate (1/128) 3 = Inr [0, 1, 2] \<and> last_reaches [0, 1, 2] 2"
proof -
  have "days_search (1/128) 2 0 2 = days_search (1/128) 2 2 2"
    by (subst days_search.simps) (simp add: simulate_slow_1 last_reaches_def)
  also have "\<dots> = Inr 2" by (subst days_search.simps) simp
  finally have "daysToTarget (1/128) 2 = Inr (Days 2)" by (simp add: daysToTarget_def)
  then show ?thesis
    by (simp add: simulate_slow_2 simulate_slow_3 last_reaches_def)
qed

lemma ceiling_half_less:
  fixes x :: rat
  assumes "1 < x"
  shows "nat \<lceil>x / 2\<rceil> < nat \<lceil>x\<rceil>"
proof -
  have c2: "2 \<le> \<lceil>x\<rceil>" using assms by (simp add: less_ceiling_iff add1_zle_eq[symmetric])
  have "x \<le> of_int \<lceil>x\<rceil>" by (rule le_of_int_ceiling)
  then have "x / 2 \<le> of_int \<lceil>x\<rceil> / 2" by simp
  also have "\<dots> \<le> of_int (\<lceil>x\<rceil> - 1)"
  proof -
    have "(of_int \<lceil>x\<rceil> :: rat) \<ge> 2" using c2 by (metis of_int_le_iff of_int_numeral)
    then show ?thesis by simp
  qed
  finally have "x / 2 \<le> of_int (\<lceil>x\<rceil> - 1)" .
  then have "\<lceil>x / 2\<rceil> \<le> \<lceil>x\<rceil> - 1" by (rule ceiling_le)
  with c2 show ?thesis by linarith
qed

lemma bonus_search_returns:
  assumes eps: "0 < eps"
  shows "\<exists>r. bonus_search days targetHires f eps lo hi = Some r"
proof (induction "nat \<lceil>(hi - lo) / eps\<rceil>" arbitrary: lo hi rule: less_induct)
  case less
  show ?case
  proof (cases "eps < hi - lo")
    case False
    then show ?thesis by (subst bonus_search.simps) simp
  next
    case True
    let ?mid = "(lo + hi) / 2"
    have x: "1 < (hi - lo) / eps" using True eps by simp
    have h1: "(?mid - lo) / eps = (hi - lo) / eps / 2" by (simp add: field_simps)
    have h2: "(hi - ?mid) / eps = (hi - lo) / eps / 2" by (simp add: field_simps)
    have m1: "nat \<lceil>(?mid - lo) / eps\<rceil> < nat \<lceil>(hi - lo) / eps\<rceil>"
      unfolding h1 by (rule ceiling_half_less[OF x])
    have m2: "nat \<lceil>(hi - ?mid) / eps\<rceil> < nat \<lceil>(hi - lo) / eps\<rceil>"
      unfolding h2 by (rule ceiling_half_less[OF x])
    from less[OF m1] obtain r1 where r1: "bonus_search days targetHires f eps lo ?mid = Some r1"
      by blast
    from less[OF m2] obtain r2 where r2: "bonus_search days targetHires f eps ?mid hi = Some r2"
      by blast
    show ?thesis
      using True r1 r2
      by (subst bonus_search.simps) (simp add: Let_def split: sum.splits)
  qed
qed










section \<open>Properties of the referral network\<close>

lemma dfs_sound_closed:
  "(case dfs g r visited node of (found, v) \<Rightarrow>
      visited \<subseteq> v \<and>
      (found \<longrightarrow> (node, r) \<in> (edges g)\<^sup>*) \<and>
      (\<not> found \<longrightarrow> node \<in> v \<and> (\<forall>x\<in>v - visited. x \<noteq> r \<and> set (neighbors g x) \<subseteq> v)))"
  "(case dfs_neighbors g r visited ns of (found, v) \<Rightarrow>
      visited \<subseteq> v \<and>
      (found \<longrightarrow> (\<exists>n\<in>set ns. (n, r) \<in> (edges g)\<^sup>*)) \<and>
      (\<not> found \<longrightarrow> set ns \<subseteq> v \<and> (\<forall>x\<in>v - visited. x \<noteq> r \<and> set (neighbors g x) \<subseteq> v)))"
proof (induction g r visited node and g r visited ns rule: dfs_dfs_neighbors.induct)
  case (1 g r visited node)
  show ?case
  proof (cases "node = r \<or> node \<in> visited")
    case True
    then show ?thesis by (auto simp: dfs.simps[of g r visited node])
  next
    case False
    obtain found v where d: "dfs_neighbors g r (insert node visited) (neighbors g node) = (found, v)"
      by force
    have ih: "insert node visited \<subseteq> v \<and>
      (found \<longrightarrow> (\<exists>n\<in>set (neighbors g node). (n, r) \<in> (edges g)\<^sup>*)) \<and>
      (\<not> found \<longrightarrow> set (neighbors g node) \<subseteq> v \<and>
         (\<forall>x\<in>v - insert node visited. x \<noteq> r \<and> set (neighbors g x) \<subseteq> v))"
      using "1.IH" False d by simp
    have eq: "dfs g r visited node = (found, v)"
      using False d by (simp add: dfs.simps[of g r visited node])
    have a: "found \<longrightarrow> (node, r) \<in> (edges g)\<^sup>*"
    proof
      assume found
      with ih obtain n where "n \<in> set (neighbors g node)" "(n, r) \<in> (edges g)\<^sup>*" by blast
      moreover from this have "(node, n) \<in> edges g" by (simp add: edges_def)
      ultimately show "(node, r) \<in> (edges g)\<^sup>*" by (meson converse_rtrancl_into_rtrancl)
    qed
    have b: "\<not> found \<longrightarrow> node \<in> v \<and> (\<forall>x\<in>v - visited. x \<noteq> r \<and> set (neighbors g x) \<subseteq> v)"
      using ih False by blast
    have "visited \<subseteq> v" using ih by blast
    then show ?thesis unfolding eq using a b by simp
  qed
next
  case (2 g r visited)
  then show ?case by simp
next
  case (3 g r visited neighbor rest)
  obtain f1 v1 where d1: "dfs g r visited neighbor = (f1, v1)" by force
  have ih1: "visited \<subseteq> v1 \<and> (f1 \<longrightarrow> (neighbor, r) \<in> (edges g)\<^sup>*) \<and>
      (\<not> f1 \<longrightarrow> neighbor \<in> v1 \<and> (\<forall>x\<in>v1 - visited. x \<noteq> r \<and> set (neighbors g x) \<subseteq> v1))"
    using "3.IH"(1) d1 by simp
  show ?case
  proof (cases f1)
    case True
    with d1 ih1 show ?thesis by simp
  next
    case False
    obtain f2 v2 where d2: "dfs_neighbors g r v1 rest = (f2, v2)" by force
    have ih2: "v1 \<subseteq> v2 \<and> (f2 \<longrightarrow> (\<exists>n\<in>set rest. (n, r) \<in> (edges g)\<^sup>*)) \<and>
      (\<not> f2 \<longrightarrow> set rest \<subseteq> v2 \<and> (\<forall>x\<in>v2 - v1. x \<noteq> r \<and> set (neighbors g x) \<subseteq> v2))"
      using "3.IH"(2)[OF d1[symmetric] refl False] d2 by simp
    have eq: "dfs_neighbors g r visited (neighbor # rest) = (f2, v2)"
      using d1 d2 False by simp
    have c: "\<not> f2 \<longrightarrow> (\<forall>x\<in>v2 - visited. x \<noteq> r \<and> set (neighbors g x) \<subseteq> v2)"
    proof (intro impI ballI)
      fix x assume nf: "\<not> f2" and x: "x \<in> v2 - visited"
      show "x \<noteq> r \<and> set (neighbors g x) \<subseteq> v2"
      proof (cases "x \<in> v1")
        case True
        with x ih1 False have "x \<noteq> r \<and> set (neighbors g x) \<subseteq> v1" by blast
        with ih2 show ?thesis by blast
      next
        case False
        with x ih2 nf show ?thesis by blast
      qed
    qed
    have s1: "visited \<subseteq> v2" using ih1 ih2 by blast
    have s2: "f2 \<longrightarrow> (\<exists>n\<in>set (neighbor # rest). (n, r) \<in> (edges g)\<^sup>*)"
      using ih2 by auto
    have s3: "\<not> f2 \<longrightarrow> set (neighbor # rest) \<subseteq> v2"
      using ih1 ih2 False by auto
    show ?thesis unfolding eq using s1 s2 s3 c by simp
  qed
qed

lemma closed_reach:
  assumes "(c, y) \<in> (edges g)\<^sup>*" "c \<in> v" "\<forall>x\<in>v. set (neighbors g x) \<subseteq> v"
  shows "y \<in> v"
  using assms(1)
proof (induction rule: rtrancl_induct)
  case base
  show ?case by (rule assms(2))
next
  case (step y z)
  then have "z \<in> set (neighbors g y)" by (simp add: edges_def)
  with step.IH assms(3) show ?case by blast
qed

lemma dfs_reaches:
  "fst (dfs g r {} c) \<longleftrightarrow> (c, r) \<in> (edges g)\<^sup>*"
proof -
  obtain found v where d: "dfs g r {} c = (found, v)" by force
  have p: "(found \<longrightarrow> (c, r) \<in> (edges g)\<^sup>*) \<and>
      (\<not> found \<longrightarrow> c \<in> v \<and> (\<forall>x\<in>v. x \<noteq> r \<and> set (neighbors g x) \<subseteq> v))"
    using dfs_sound_closed(1)[where g=g and r=r and visited="{}" and node=c] d by simp
  show ?thesis
  proof (cases found)
    case True
    with p d show ?thesis by simp
  next
    case False
    have "(c, r) \<notin> (edges g)\<^sup>*"
    proof
      assume cr: "(c, r) \<in> (edges g)\<^sup>*"
      have cv: "c \<in> v" using p False by blast
      have cl: "\<forall>x\<in>v. set (neighbors g x) \<subseteq> v" using p False by blast
      have "r \<in> v" by (rule closed_reach[OF cr cv cl])
      with p False show False by blast
    qed
    with False d show ?thesis by simp
  qed
qed

lemma neighbors_update:
  "neighbors (AList.update k v g) x = (if x = k then v else neighbors g x)"
  by (simp add: neighbors_def update_conv')

lemma edges_update_append:
  "edges (AList.update k (neighbors g k @ [c]) g) = insert (k, c) (edges g)"
  by (auto simp: edges_def neighbors_update split: if_splits)

lemma neighbors_update_fresh:
  assumes "map_of g u = None"
  shows "neighbors (AList.update u [] g) = neighbors g"
proof
  fix x
  have "neighbors g u = []" using assms by (simp add: neighbors_def)
  then show "neighbors (AList.update u [] g) x = neighbors g x"
    by (simp add: neighbors_update)
qed

lemma edges_update_fresh:
  "map_of g u = None \<Longrightarrow> edges (AList.update u [] g) = edges g"
  by (simp add: edges_def neighbors_update_fresh)

lemma network_inv_empty: "network_inv empty_network"
  by (simp add: network_inv_def empty_network_def edges_def neighbors_def acyclic_def)

lemma wouldCreateCycle_iff:
  "wouldCreateCycle s r c \<longleftrightarrow> (c, r) \<in> (edges (graph s))\<^sup>*"
  by (simp add: wouldCreateCycle_def dfs_reaches)

lemma network_inv_addUser:
  assumes "network_inv s"
  shows "network_inv (addUser s u)"
proof -
  have g: "edges (graph (addUser s u)) = edges (graph s)"
    "neighbors (graph (addUser s u)) = neighbors (graph s)"
    by (auto simp: addUser_def Let_def edges_update_fresh neighbors_update_fresh)
  have us: "set (users (addUser s u)) = insert u (set (users s))"
    "distinct (users (addUser s u)) = distinct (users s)"
    by (auto simp: addUser_def Let_def set_add_def)
  have r: "referrerOf (addUser s u) = referrerOf s"
    by (simp add: addUser_def Let_def)
  have m: "map_of (graph (addUser s u)) =
      (if map_of (graph s) u = None then (map_of (graph s))(u \<mapsto> []) else map_of (graph s))"
    by (auto simp: addUser_def Let_def update_conv')
  have d: "map_of (directReferrals (addUser s u)) =
      (if map_of (directReferrals s) u = None then (map_of (directReferrals s))(u \<mapsto> [])
       else map_of (directReferrals s))"
    by (auto simp: addUser_def Let_def update_conv')
  have eqm: "\<forall>u. map_of (directReferrals s) u = map_of (graph s) u"
    using assms by (simp add: network_inv_def)
  then have eqm': "map_of (directReferrals s) = map_of (graph s)" by auto
  show ?thesis
    unfolding network_inv_def g us r
    using assms unfolding network_inv_def
    by (simp add: m d eqm')
qed

lemma addReferral_unknown:
  "referrerId \<notin> set (users s) \<or> candidateId \<notin> set (users s) \<Longrightarrow>
   addReferral s referrerId candidateId = Inl UnknownUser"
  by (auto simp: addReferral_def)

lemma addReferral_rejected:
  assumes "referrerId \<in> set (users s)" "candidateId \<in> set (users s)"
    and "referrerId = candidateId \<or> map_of (referrerOf s) candidateId \<noteq> None \<or>
         (candidateId, referrerId) \<in> (edges (graph s))\<^sup>*"
  shows "addReferral s referrerId candidateId = Inr (False, s)"
  using assms by (auto simp: addReferral_def wouldCreateCycle_iff)

lemma addReferral_accepted:
  assumes inv: "network_inv s"
    and reg: "referrerId \<in> set (users s)" "candidateId \<in> set (users s)"
    and ok: "referrerId \<noteq> candidateId" "map_of (referrerOf s) candidateId = None"
      "(candidateId, referrerId) \<notin> (edges (graph s))\<^sup>*"
  shows "addReferral s referrerId candidateId = Inr (True, commit_edge s referrerId candidateId)"
proof -
  from inv reg(1) obtain referred where g: "map_of (graph s) referrerId = Some referred"
    by (auto simp: network_inv_def)
  with inv have d: "map_of (directReferrals s) referrerId = Some referred"
    by (simp add: network_inv_def)
  have n: "neighbors (graph s) referrerId = referred" using g by (simp add: neighbors_def)
  have "(referrerId, candidateId) \<notin> edges (graph s)"
    using inv ok(2) by (simp add: network_inv_def)
  then have "candidateId \<notin> set referred" using n by (simp add: edges_def)
  then have sa: "set_add candidateId referred = referred @ [candidateId]"
    by (simp add: set_add_def)
  show ?thesis
    using reg ok g d sa n
    by (simp add: addReferral_def wouldCreateCycle_iff commit_edge_def)
qed

lemma network_inv_commit_edge:
  assumes inv: "network_inv s"
    and reg: "referrerId \<in> set (users s)" "candidateId \<in> set (users s)"
    and ok: "referrerId \<noteq> candidateId" "map_of (referrerOf s) candidateId = None"
      "(candidateId, referrerId) \<notin> (edges (graph s))\<^sup>*"
  shows "network_inv (commit_edge s referrerId candidateId)"
proof -
  let ?s' = "commit_edge s referrerId candidateId"
  let ?E = "edges (graph s)"
  have u: "users ?s' = users s" by (simp add: commit_edge_def)
  have e: "edges (graph ?s') = insert (referrerId, candidateId) ?E"
    by (simp add: commit_edge_def edges_update_append)
  have nb: "\<And>x. neighbors (graph ?s') x =
      (if x = referrerId then neighbors (graph s) referrerId @ [candidateId]
       else neighbors (graph s) x)"
    by (simp add: commit_edge_def neighbors_update)
  have mg: "map_of (graph ?s') =
      (map_of (graph s))(referrerId \<mapsto> neighbors (graph s) referrerId @ [candidateId])"
    by (simp add: commit_edge_def update_conv')
  have md: "map_of (directReferrals ?s') =
      (map_of (directReferrals s))(referrerId \<mapsto> neighbors (graph s) referrerId @ [candidateId])"
    by (simp add: commit_edge_def update_conv')
  have mr: "map_of (referrerOf ?s') = (map_of (referrerOf s))(candidateId \<mapsto> referrerId)"
    by (simp add: commit_edge_def update_conv')
  have i1: "distinct (users s)" using inv by (simp add: network_inv_def)
  have i2: "\<forall>u\<in>set (users s). map_of (graph s) u \<noteq> None" using inv by (simp add: network_inv_def)
  have i3: "\<forall>u. map_of (directReferrals s) u = map_of (graph s) u"
    using inv by (simp add: network_inv_def)
  have i4: "\<forall>x y. (x, y) \<in> ?E \<longrightarrow> x \<in> set (users s) \<and> y \<in> set (users s)"
    using inv by (simp add: network_inv_def)
  have i5: "\<forall>r c. (r, c) \<in> ?E \<longleftrightarrow> map_of (referrerOf s) c = Some r"
    using inv by (simp add: network_inv_def)
  have i6: "\<forall>u. distinct (neighbors (graph s) u)" using inv by (simp add: network_inv_def)
  have i7: "acyclic ?E" using inv by (simp add: network_inv_def)
  have fresh: "candidateId \<notin> set (neighbors (graph s) referrerId)"
    using i5 ok(2) by (simp add: edges_def)
  have c1: "distinct (users ?s')" using i1 u by simp
  have c2: "\<forall>u\<in>set (users ?s'). map_of (graph ?s') u \<noteq> None"
    using i2 u by (simp add: mg)
  have c3: "\<forall>u. map_of (directReferrals ?s') u = map_of (graph ?s') u"
    using i3 by (simp add: mg md)
  have c4: "\<forall>x y. (x, y) \<in> edges (graph ?s') \<longrightarrow> x \<in> set (users ?s') \<and> y \<in> set (users ?s')"
    using i4 reg unfolding e u by blast
  have c5: "\<forall>r c. (r, c) \<in> edges (graph ?s') \<longleftrightarrow> map_of (referrerOf ?s') c = Some r"
  proof (intro allI)
    fix r c
    show "(r, c) \<in> edges (graph ?s') \<longleftrightarrow> map_of (referrerOf ?s') c = Some r"
    proof (cases "c = candidateId")
      case True
      have "(r, candidateId) \<notin> ?E" using i5 ok(2) by simp
      with True show ?thesis unfolding e mr by auto
    next
      case False
      then show ?thesis unfolding e mr using i5 by simp
    qed
  qed
  have c6: "\<forall>u. distinct (neighbors (graph ?s') u)"
    using i6 fresh by (simp add: nb)
  have c7: "acyclic (edges (graph ?s'))"
    unfolding e using i7 ok(3) by (simp add: acyclic_insert)
  show ?thesis
    unfolding network_inv_def using c1 c2 c3 c4 c5 c6 c7 by blast
qed

lemma network_inv_addReferral:
  assumes "network_inv s" "addReferral s referrerId candidateId = Inr (added, s')"
  shows "network_inv s'"
proof (cases "referrerId = candidateId \<or> map_of (referrerOf s) candidateId \<noteq> None \<or>
         (candidateId, referrerId) \<in> (edges (graph s))\<^sup>*")
  case True
  from assms(2) have reg: "referrerId \<in> set (users s)" "candidateId \<in> set (users s)"
    by (auto simp: addReferral_def split: if_splits)
  from addReferral_rejected[OF reg True] assms show ?thesis by simp
next
  case False
  from assms(2) have reg: "referrerId \<in> set (users s)" "candidateId \<in> set (users s)"
    by (auto simp: addReferral_def split: if_splits)
  from False have ok: "referrerId \<noteq> candidateId" "map_of (referrerOf s) candidateId = None"
      "(candidateId, referrerId) \<notin> (edges (graph s))\<^sup>*" by auto
  from addReferral_accepted[OF assms(1) reg ok] assms(2)
  have "s' = commit_edge s referrerId candidateId" by simp
  with network_inv_commit_edge[OF assms(1) reg ok] show ?thesis by simp
qed

lemma network_inv_apply_call: "network_inv s \<Longrightarrow> network_inv (apply_call s c)"
proof (cases c)
  case (AddUser u)
  assume "network_inv s"
  with AddUser show ?thesis by (simp add: network_inv_addUser)
next
  case (AddReferral r c')
  assume inv: "network_inv s"
  show ?thesis
  proof (cases "addReferral s r c'")
    case (Inl e)
    with AddReferral inv show ?thesis by simp
  next
    case (Inr p)
    obtain added s' where p: "p = (added, s')" by force
    with Inr network_inv_addReferral[OF inv, of r c' added s'] AddReferral show ?thesis by simp
  qed
qed

lemma run_calls_snoc: "run_calls (calls @ [c]) = apply_call (run_calls calls) c"
  by (simp add: run_calls_def)

lemma network_inv_run_calls: "network_inv (run_calls calls)"
proof (induction calls rule: rev_induct)
  case Nil
  show ?case by (simp add: run_calls_def network_inv_empty)
next
  case (snoc c calls)
  then show ?case by (simp add: run_calls_snoc network_inv_apply_call)
qed

lemma commit_edge_fields:
  assumes "network_inv s"
  shows "users (commit_edge s r c) = users s"
    and "map_of (graph (commit_edge s r c)) = (map_of (graph s))(r \<mapsto> neighbors (graph s) r @ [c])"
    and "map_of (directReferrals (commit_edge s r c)) =
           (map_of (directReferrals s))(r \<mapsto> neighbors (directReferrals s) r @ [c])"
    and "map_of (referrerOf (commit_edge s r c)) = (map_of (referrerOf s))(c \<mapsto> r)"
    and "edges (graph (commit_edge s r c)) = insert (r, c) (edges (graph s))"
proof -
  have "\<forall>u. map_of (directReferrals s) u = map_of (graph s) u"
    using assms by (simp add: network_inv_def)
  then have "neighbors (directReferrals s) r = neighbors (graph s) r"
    by (simp add: neighbors_def)
  then show "map_of (directReferrals (commit_edge s r c)) =
           (map_of (directReferrals s))(r \<mapsto> neighbors (directReferrals s) r @ [c])"
    by (simp add: commit_edge_def update_conv')
qed (simp_all add: commit_edge_def update_conv' edges_update_append)

text \<open>
  Claim C1. In every state the object can reach, \<^verbatim>\<open>addReferral\<close> throws the unknown-user
  error when an endpoint is not registered; for registered endpoints it returns false
  and leaves the whole state as it was exactly when the referrer is the candidate, the
  candidate already has a referrer, or the candidate reaches the referrer along
  referral edges; in every other case it returns true and the new state has the
  candidate appended to the referrer's adjacency array and direct-referral set and the
  referrer recorded for the candidate, nothing else being changed.
\<close>

theorem addReferral_outcomes:
  "let s = run_calls calls in
     (referrerId \<notin> set (users s) \<or> candidateId \<notin> set (users s) \<longrightarrow>
        addReferral s referrerId candidateId = Inl UnknownUser) \<and>
     (referrerId \<in> set (users s) \<and> candidateId \<in> set (users s) \<and>
      (referrerId = candidateId \<or> map_of (referrerOf s) candidateId \<noteq> None \<or>
       (candidateId, referrerId) \<in> (edges (graph s))\<^sup>*) \<longrightarrow>
        addReferral s referrerId candidateId = Inr (False, s)) \<and>
     (referrerId \<in> set (users s) \<and> candidateId \<in> set (users s) \<and>
      referrerId \<noteq> candidateId \<and> map_of (referrerOf s) candidateId = None \<and>
      (candidateId, referrerId) \<notin> (edges (graph s))\<^sup>* \<longrightarrow>
        (\<exists>s'. addReferral s referrerId candidateId = Inr (True, s') \<and>
              users s' = users s \<and>
              map_of (graph s') =
                (map_of (graph s))(referrerId \<mapsto> neighbors (graph s) referrerId @ [candidateId]) \<and>
              map_of (directReferrals s') =
                (map_of (directReferrals s))
                  (referrerId \<mapsto> neighbors (directReferrals s) referrerId @ [candidateId]) \<and>
              map_of (referrerOf s') = (map_of (referrerOf s))(candidateId \<mapsto> referrerId) \<and>
              edges (graph s') = insert (referrerId, candidateId) (edges (graph s))))"
proof -
  let ?s = "run_calls calls"
  have inv: "network_inv ?s" by (rule network_inv_run_calls)
  have a: "referrerId \<notin> set (users ?s) \<or> candidateId \<notin> set (users ?s) \<longrightarrow>
        addReferral ?s referrerId candidateId = Inl UnknownUser"
    using addReferral_unknown[of referrerId ?s candidateId] by blast
  have b: "referrerId \<in> set (users ?s) \<and> candidateId \<in> set (users ?s) \<and>
      (referrerId = candidateId \<or> map_of (referrerOf ?s) candidateId \<noteq> None \<or>
       (candidateId, referrerId) \<in> (edges (graph ?s))\<^sup>*) \<longrightarrow>
        addReferral ?s referrerId candidateId = Inr (False, ?s)"
    using addReferral_rejected[of referrerId ?s candidateId] by blast
  have c: "referrerId \<in> set (users ?s) \<and> candidateId \<in> set (users ?s) \<and>
      referrerId \<noteq> candidateId \<and> map_of (referrerOf ?s) candidateId = None \<and>
      (candidateId, referrerId) \<notin> (edges (graph ?s))\<^sup>* \<longrightarrow>
        (\<exists>s'. addReferral ?s referrerId candidateId = Inr (True, s') \<and>
              users s' = users ?s \<and>
              map_of (graph s') =
                (map_of (graph ?s))(referrerId \<mapsto> neighbors (graph ?s) referrerId @ [candidateId]) \<and>
              map_of (directReferrals s') =
                (map_of (directReferrals ?s))
                  (referrerId \<mapsto> neighbors (directReferrals ?s) referrerId @ [candidateId]) \<and>
              map_of (referrerOf s') = (map_of (referrerOf ?s))(candidateId \<mapsto> referrerId) \<and>
              edges (graph s') = insert (referrerId, candidateId) (edges (graph ?s)))"
  proof
    assume h: "referrerId \<in> set (users ?s) \<and> candidateId \<in> set (users ?s) \<and>
      referrerId \<noteq> candidateId \<and> map_of (referrerOf ?s) candidateId = None \<and>
      (candidateId, referrerId) \<notin> (edges (graph ?s))\<^sup>*"
    then have "addReferral ?s referrerId candidateId =
        Inr (True, commit_edge ?s referrerId candidateId)"
      using addReferral_accepted[OF inv, of referrerId candidateId] by blast
    with commit_edge_fields[OF inv, of referrerId candidateId]
    show "\<exists>s'. addReferral ?s referrerId candidateId = Inr (True, s') \<and>
              users s' = users ?s \<and>
              map_of (graph s') =
                (map_of (graph ?s))(referrerId \<mapsto> neighbors (graph ?s) referrerId @ [candidateId]) \<and>
              map_of (directReferrals s') =
                (map_of (directReferrals ?s))
                  (referrerId \<mapsto> neighbors (directReferrals ?s) referrerId @ [candidateId]) \<and>
              map_of (referrerOf s') = (map_of (referrerOf ?s))(candidateId \<mapsto> referrerId) \<and>
              edges (graph s') = insert (referrerId, candidateId) (edges (graph ?s))"
      by blast
  qed
  show ?thesis unfolding Let_def using a b c by blast
qed

lemma chain_state:
  "run_calls [AddUser ''A'', AddUser ''B'', AddUser ''C'', AddReferral ''A'' ''B'',
              AddReferral ''B'' ''C''] =
   \<lparr>graph = [(''A'', [''B'']), (''B'', [''C'']), (''C'', [])],
    users = [''A'', ''B'', ''C''],
    directReferrals = [(''A'', [''B'']), (''B'', [''C'']), (''C'', [])],
    referrerOf = [(''B'', ''A''), (''C'', ''B'')]\<rparr>"
  by code_simp

lemma chain_edges:
  "edges [(''A'', [''B'']), (''B'', [''C'']), (''C'', [])] = {(''A'', ''B''), (''B'', ''C'')}"
  by (auto simp: edges_def neighbors_def split: if_splits)

theorem addReferral_outcomes_witness:
  "(let s = run_calls [AddUser ''A'', AddUser ''B'', AddUser ''C'', AddReferral ''A'' ''B'',
                       AddReferral ''B'' ''C'']
    in addReferral s ''A'' ''D'' = Inl UnknownUser \<and>
       addReferral s ''C'' ''C'' = Inr (False, s) \<and>
       addReferral s ''A'' ''C'' = Inr (False, s) \<and>
       (''A'', ''C'') \<in> (edges (graph s))\<^sup>* \<and>
       addReferral s ''C'' ''A'' = Inr (False, s)) \<and>
   (let s = run_calls [AddUser ''A'', AddUser ''B'']
    in \<exists>s'. addReferral s ''A'' ''B'' = Inr (True, s') \<and>
         edges (graph s') = insert (''A'', ''B'') (edges (graph s)) \<and>
         map_of (referrerOf s') = (map_of (referrerOf s))(''B'' \<mapsto> ''A''))"
proof -
  let ?cs = "[AddUser ''A'', AddUser ''B'', AddUser ''C'', AddReferral ''A'' ''B'',
              AddReferral ''B'' ''C'']"
  let ?s = "run_calls ?cs"
  have path: "(''A'', ''C'') \<in> (edges (graph ?s))\<^sup>*"
  proof -
    have "(''A'', ''B'') \<in> edges (graph ?s)" "(''B'', ''C'') \<in> edges (graph ?s)"
      by (simp_all add: chain_state chain_edges)
    then show ?thesis by (meson r_into_rtrancl rtrancl_trans)
  qed
  have reg: "''A'' \<in> set (users ?s)" "''C'' \<in> set (users ?s)" "''D'' \<notin> set (users ?s)"
    "map_of (referrerOf ?s) ''C'' \<noteq> None"
    by (simp_all add: chain_state)
  have first: "addReferral ?s ''A'' ''D'' = Inl UnknownUser \<and>
       addReferral ?s ''C'' ''C'' = Inr (False, ?s) \<and>
       addReferral ?s ''A'' ''C'' = Inr (False, ?s) \<and>
       (''A'', ''C'') \<in> (edges (graph ?s))\<^sup>* \<and>
       addReferral ?s ''C'' ''A'' = Inr (False, ?s)"
    using addReferral_outcomes[of ?cs "''A''" "''D''"] addReferral_outcomes[of ?cs "''C''" "''C''"]
      addReferral_outcomes[of ?cs "''A''" "''C''"] addReferral_outcomes[of ?cs "''C''" "''A''"]
      path reg
    unfolding Let_def by blast
  let ?cs2 = "[AddUser ''A'', AddUser ''B'']"
  let ?t = "run_calls ?cs2"
  have t: "?t = \<lparr>graph = [(''A'', []), (''B'', [])], users = [''A'', ''B''],
      directReferrals = [(''A'', []), (''B'', [])], referrerOf = []\<rparr>"
    by code_simp
  have "edges (graph ?t) = {}" by (auto simp: t edges_def neighbors_def split: if_splits)
  then have "(''B'', ''A'') \<notin> (edges (graph ?t))\<^sup>*" by simp
  moreover have "''A'' \<in> set (users ?t)" "''B'' \<in> set (users ?t)"
    "map_of (referrerOf ?t) ''B'' = None" by (simp_all add: t)
  ultimately have second: "\<exists>s'. addReferral ?t ''A'' ''B'' = Inr (True, s') \<and>
         edges (graph s') = insert (''A'', ''B'') (edges (graph ?t)) \<and>
         map_of (referrerOf s') = (map_of (referrerOf ?t))(''B'' \<mapsto> ''A'')"
    using addReferral_outcomes[of ?cs2 "''A''" "''B''"] unfolding Let_def by auto
  from first second show ?thesis unfolding Let_def by blast
qed

text \<open>
  Claim C2. After any finite sequence of \<^verbatim>\<open>addUser\<close> and \<^verbatim>\<open>addReferral\<close> calls on a
  fresh object, no user reaches itself along referral edges, and no candidate has two
  incoming referral edges: two edges into the same candidate have the same referrer,
  no adjacency array lists a candidate twice, and the edges are exactly the entries of
  the reverse map \<^verbatim>\<open>referrerOf\<close>.
\<close>

theorem run_calls_forest:
  "let s = run_calls calls; E = edges (graph s) in
     (\<forall>x. (x, x) \<notin> E\<^sup>+) \<and>
     (\<forall>candidate r1 r2. (r1, candidate) \<in> E \<and> (r2, candidate) \<in> E \<longrightarrow> r1 = r2) \<and>
     (\<forall>r. distinct (neighbors (graph s) r)) \<and>
     (\<forall>r candidate. (r, candidate) \<in> E \<longleftrightarrow> map_of (referrerOf s) candidate = Some r)"
proof -
  let ?s = "run_calls calls"
  let ?E = "edges (graph ?s)"
  have inv: "network_inv ?s" by (rule network_inv_run_calls)
  have rev: "\<forall>r c. (r, c) \<in> ?E \<longleftrightarrow> map_of (referrerOf ?s) c = Some r"
    using inv by (simp add: network_inv_def)
  have "acyclic ?E" using inv by (simp add: network_inv_def)
  then have a: "\<forall>x. (x, x) \<notin> ?E\<^sup>+" by (simp add: acyclic_def)
  have b: "\<forall>c r1 r2. (r1, c) \<in> ?E \<and> (r2, c) \<in> ?E \<longrightarrow> r1 = r2"
  proof (intro allI impI)
    fix c r1 r2 assume "(r1, c) \<in> ?E \<and> (r2, c) \<in> ?E"
    with rev have "map_of (referrerOf ?s) c = Some r1" "map_of (referrerOf ?s) c = Some r2"
      by blast+
    then show "r1 = r2" by simp
  qed
  have c: "\<forall>r. distinct (neighbors (graph ?s) r)" using inv by (simp add: network_inv_def)
  show ?thesis unfolding Let_def using a b c rev by blast
qed

theorem run_calls_forest_witness:
  "(let s = run_calls [AddUser ''A'', AddUser ''B'', AddUser ''C'', AddReferral ''A'' ''B'',
                       AddReferral ''B'' ''C'']
    in (''A'', ''B'') \<in> edges (graph s) \<and> (''A'', ''A'') \<notin> (edges (graph s))\<^sup>+ \<and>
       (\<forall>r. (r, ''B'') \<in> edges (graph s) \<longrightarrow> r = ''A'') \<and>
       distinct (neighbors (graph s) ''A'') \<and>
       map_of (referrerOf s) ''B'' = Some ''A'')"
proof -
  let ?cs = "[AddUser ''A'', AddUser ''B'', AddUser ''C'', AddReferral ''A'' ''B'',
              AddReferral ''B'' ''C'']"
  have "(''A'', ''B'') \<in> edges (graph (run_calls ?cs))"
    by (simp add: chain_state chain_edges)
  with run_calls_forest[of ?cs] show ?thesis unfolding Let_def by blast
qed

lemma consider_user_fold:
  "fold (consider_user reachSets selected covered) xs init = (Some u, n) \<Longrightarrow>
   fst init = Some u \<or> (u \<in> set xs \<and> u \<notin> set selected)"
proof (induction xs arbitrary: init)
  case Nil
  then show ?case by simp
next
  case (Cons x xs)
  let ?init' = "consider_user reachSets selected covered x init"
  from Cons.prems have "fold (consider_user reachSets selected covered) xs ?init' = (Some u, n)"
    by simp
  from Cons.IH[OF this] have "fst ?init' = Some u \<or> (u \<in> set xs \<and> u \<notin> set selected)" .
  then show ?case
  proof
    assume "fst ?init' = Some u"
    then have "fst init = Some u \<or> (x = u \<and> u \<notin> set selected)"
      by (auto simp: consider_user_def Let_def split: if_splits)
    then show ?thesis by auto
  next
    assume "u \<in> set xs \<and> u \<notin> set selected"
    then show ?thesis by simp
  qed
qed

lemma add_remaining_set: "set (add_remaining us selected) = set selected \<union> set us"
  unfolding add_remaining_def by (induction us arbitrary: selected) auto

lemma add_remaining_distinct: "distinct selected \<Longrightarrow> distinct (add_remaining us selected)"
  unfolding add_remaining_def by (induction us arbitrary: selected) auto

lemma greedy_select_all:
  "distinct us \<Longrightarrow> distinct selected \<Longrightarrow> set selected \<subseteq> set us \<Longrightarrow>
   distinct (greedy_select us reachSets selected covered) \<and>
   set (greedy_select us reachSets selected covered) = set us"
proof (induction us reachSets selected covered rule: greedy_select.induct)
  case (1 us reachSets selected covered)
  show ?case
  proof (cases "length selected < length us")
    case False
    have "card (set us) \<le> card (set selected)"
      using False "1.prems" by (simp add: distinct_card)
    then have "set selected = set us"
      using "1.prems"(3) by (intro card_seteq) auto
    with False "1.prems" show ?thesis
      by (simp add: greedy_select.simps[of us reachSets selected covered])
  next
    case True
    obtain best n where f: "fold (consider_user reachSets selected covered) us (None, 0) = (best, n)"
      by force
    have rem: "distinct (add_remaining us selected) \<and> set (add_remaining us selected) = set us"
      using "1.prems" by (auto simp: add_remaining_set add_remaining_distinct)
    show ?thesis
    proof (cases best)
      case None
      with True f rem show ?thesis
        by (simp add: greedy_select.simps[of us reachSets selected covered])
    next
      case (Some u)
      show ?thesis
      proof (cases "n = 0")
        case z: True
        with True f rem Some show ?thesis
          by (simp add: greedy_select.simps[of us reachSets selected covered])
      next
        case nz: False
        from consider_user_fold[of reachSets selected covered us "(None, 0)" u n] f Some
        have u: "u \<in> set us" "u \<notin> set selected" by auto
        have "distinct (greedy_select us reachSets (selected @ [u]) (covered \<union> set (reachSets u))) \<and>
           set (greedy_select us reachSets (selected @ [u]) (covered \<union> set (reachSets u))) = set us"
          using "1.IH"[OF True f[symmetric] _ nz, of u] Some "1.prems" u by simp
        with True f Some nz show ?thesis
          by (simp add: greedy_select.simps[of us reachSets selected covered])
      qed
    qed
  qed
qed

lemma uniqueReachExpansion_distinct_users:
  assumes "distinct (users s)"
  shows "mset (uniqueReachExpansion s) = mset (users s)"
proof (cases "users s = []")
  case True
  then show ?thesis by (simp add: uniqueReachExpansion_def)
next
  case False
  have "distinct (greedy_select (users s) (getReachSet s) [] {}) \<and>
     set (greedy_select (users s) (getReachSet s) [] {}) = set (users s)"
    using assms by (intro greedy_select_all) auto
  then have "mset (greedy_select (users s) (getReachSet s) [] {}) = mset (users s)"
    using assms set_eq_iff_mset_eq_distinct by blast
  with False show ?thesis
    by (simp add: uniqueReachExpansion_def)
qed

text \<open>
  Claim C7. In every state the object can reach, \<^verbatim>\<open>uniqueReachExpansion\<close> returns a
  permutation of the registered users: every user occurs exactly once and the length
  is the number of users. For the empty network the result is empty, and for a network
  with a single user it is that user alone.
\<close>

theorem uniqueReachExpansion_permutation:
  "(let s = run_calls calls in
      mset (uniqueReachExpansion s) = mset (users s) \<and>
      distinct (uniqueReachExpansion s) \<and>
      length (uniqueReachExpansion s) = length (users s)) \<and>
   uniqueReachExpansion (empty_network :: 'a network) = [] \<and>
   uniqueReachExpansion (addUser (empty_network :: 'a network) userId) = [userId]"
proof -
  let ?s = "run_calls calls"
  have d: "distinct (users ?s)" using network_inv_run_calls[of calls] by (simp add: network_inv_def)
  have m: "mset (uniqueReachExpansion ?s) = mset (users ?s)"
    by (rule uniqueReachExpansion_distinct_users[OF d])
  have "distinct (uniqueReachExpansion ?s)" using m d by (metis mset_eq_imp_distinct_iff)
  moreover have "length (uniqueReachExpansion ?s) = length (users ?s)"
    using m by (metis size_mset)
  moreover have "uniqueReachExpansion (empty_network :: 'a network) = []"
    by (simp add: uniqueReachExpansion_def empty_network_def)
  moreover have "uniqueReachExpansion (addUser (empty_network :: 'a network) userId) = [userId]"
  proof -
    have u: "users (addUser (empty_network :: 'a network) userId) = [userId]"
      by (simp add: addUser_def empty_network_def set_add_def Let_def)
    then have "mset (uniqueReachExpansion (addUser (empty_network :: 'a network) userId)) = mset [userId]"
      using uniqueReachExpansion_distinct_users[of "addUser (empty_network :: 'a network) userId"]
      by simp
    then show ?thesis by (metis mset_single_iff_right mset.simps(1) mset.simps(2) add_mset_eq_single mset_zero_iff)
  qed
  ultimately show ?thesis unfolding Let_def using m by blast
qed

lemma expansion_example:
  "uniqueReachExpansion (run_calls [AddUser ''B'', AddUser ''A'', AddUser ''C'',
      AddReferral ''A'' ''B'']) = [''A'', ''C'', ''B'']"
  by code_simp

theorem uniqueReachExpansion_permutation_witness:
  "(let s = run_calls [AddUser ''B'', AddUser ''A'', AddUser ''C'', AddReferral ''A'' ''B'']
    in uniqueReachExpansion s = [''A'', ''C'', ''B''] \<and>
       mset [''A'', ''C'', ''B''] = mset (users s) \<and> length (users s) = 3) \<and>
   uniqueReachExpansion (addUser empty_network ''A'') = [''A'']"
  using uniqueReachExpansion_permutation[of
      "[AddUser ''B'', AddUser ''A'', AddUser ''C'', AddReferral ''A'' ''B'']" "''A''"]
    expansion_example
  unfolding Let_def by simp

lemma edges_in_nodes: "(x, y) \<in> edges g \<Longrightarrow> y \<in> nodes_of g"
  by (simp add: edges_def neighbors_in_nodes)

lemma reach_in_nodes:
  assumes "(x, y) \<in> (edges g)\<^sup>*"
  shows "y = x \<or> y \<in> nodes_of g"
  using assms by (induction rule: rtrancl_induct) (simp_all add: edges_in_nodes)

lemma finite_reach: "finite visited \<Longrightarrow> finite ((edges g)\<^sup>* `` visited)"
proof (rule finite_subset)
  show "(edges g)\<^sup>* `` visited \<subseteq> visited \<union> nodes_of g"
    using reach_in_nodes by fastforce
qed (simp add: finite_nodes_of)

lemma closed_image:
  assumes "\<forall>x\<in>v. set (neighbors g x) \<subseteq> v"
  shows "(edges g)\<^sup>* `` v = v"
proof
  show "(edges g)\<^sup>* `` v \<subseteq> v"
  proof
    fix y assume "y \<in> (edges g)\<^sup>* `` v"
    then obtain x where "x \<in> v" "(x, y) \<in> (edges g)\<^sup>*" by blast
    then show "y \<in> v" using closed_reach[OF _ _ assms] by blast
  qed
qed blast

lemma count_loop_card:
  "finite visited \<Longrightarrow> set queue \<subseteq> visited \<Longrightarrow>
   \<forall>x\<in>visited - set queue. set (neighbors g x) \<subseteq> visited \<Longrightarrow>
   count_loop g queue visited cnt = cnt + card ((edges g)\<^sup>* `` visited - visited)"
proof (induction g queue visited cnt rule: count_loop.induct)
  case (1 g visited cnt)
  then have "(edges g)\<^sup>* `` visited = visited" by (intro closed_image) simp
  then show ?case by simp
next
  case (2 g current queue visited cnt)
  let ?ns = "neighbors g current"
  let ?V = "visited \<union> set ?ns"
  let ?R = "(edges g)\<^sup>* `` visited"
  obtain new where new:
    "count_neighbors ?ns queue visited cnt = (queue @ new, ?V, cnt + length new)"
    "set new = set ?ns - visited" "distinct new"
    using count_neighbors_result[of ?ns queue visited cnt] by blast
  have cur: "current \<in> visited" using "2.prems"(2) by simp
  have fin: "finite ?V" using "2.prems"(1) by simp
  have sub: "set (queue @ new) \<subseteq> ?V" using "2.prems"(2) new(2) by auto
  have closed: "\<forall>x\<in>?V - set (queue @ new). set (neighbors g x) \<subseteq> ?V"
  proof
    fix x assume x: "x \<in> ?V - set (queue @ new)"
    then have xv: "x \<in> visited" using new(2) by auto
    show "set (neighbors g x) \<subseteq> ?V"
    proof (cases "x = current")
      case True
      then show ?thesis by blast
    next
      case False
      with x xv have "x \<in> visited - set (current # queue)" by simp
      with "2.prems"(3) have "set (neighbors g x) \<subseteq> visited" by blast
      then show ?thesis by blast
    qed
  qed
  have ih: "count_loop g (queue @ new) ?V (cnt + length new) =
      cnt + length new + card ((edges g)\<^sup>* `` ?V - ?V)"
    using "2.IH"[OF new(1)[symmetric] refl refl fin sub closed] .
  have nsR: "set ?ns \<subseteq> ?R"
  proof
    fix y assume "y \<in> set ?ns"
    then have "(current, y) \<in> edges g" by (simp add: edges_def)
    with cur show "y \<in> ?R" by blast
  qed
  have same: "(edges g)\<^sup>* `` ?V = ?R"
  proof
    show "(edges g)\<^sup>* `` ?V \<subseteq> ?R"
    proof
      fix y assume "y \<in> (edges g)\<^sup>* `` ?V"
      then obtain x where x: "x \<in> ?V" "(x, y) \<in> (edges g)\<^sup>*" by blast
      from x(1) nsR have "x \<in> ?R" by blast
      then obtain w where "w \<in> visited" "(w, x) \<in> (edges g)\<^sup>*" by blast
      with x(2) show "y \<in> ?R" by (meson Image_iff rtrancl_trans)
    qed
  qed blast
  have split: "?R - visited = set new \<union> (?R - ?V)" using new(2) nsR by blast
  have disj: "set new \<inter> (?R - ?V) = {}" using new(2) by blast
  have finR: "finite (?R - ?V)" using finite_reach[OF "2.prems"(1), of g] by simp
  have "card (?R - visited) = card (set new) + card (?R - ?V)"
    unfolding split using disj finR by (intro card_Un_disjoint) simp_all
  then have "card (?R - visited) = length new + card (?R - ?V)"
    using new(3) by (simp add: distinct_card)
  with ih new(1) same show ?case by simp
qed

lemma totalReferrals_card:
  "userId \<in> set (users s) \<Longrightarrow>
   totalReferrals s userId = Inr (card ((edges (graph s))\<^sup>* `` {userId} - {userId}))"
  using count_loop_card[of "{userId}" "[userId]" "graph s" 0]
  by (simp add: totalReferrals_def)

lemma single_parent_comparable:
  assumes single: "\<forall>c r1 r2. (r1, c) \<in> E \<and> (r2, c) \<in> E \<longrightarrow> r1 = r2"
    and ax: "(a, x) \<in> E\<^sup>*"
  shows "(b, x) \<in> E\<^sup>* \<longrightarrow> (a, b) \<in> E\<^sup>* \<or> (b, a) \<in> E\<^sup>*"
  using ax
proof (induction rule: rtrancl_induct)
  case base
  show ?case by blast
next
  case (step y z)
  show ?case
  proof
    assume bz: "(b, z) \<in> E\<^sup>*"
    show "(a, b) \<in> E\<^sup>* \<or> (b, a) \<in> E\<^sup>*"
    proof (cases "b = z")
      case True
      from step.hyps have "(a, z) \<in> E\<^sup>*" by (meson rtrancl.rtrancl_into_rtrancl)
      with True show ?thesis by blast
    next
      case False
      with bz obtain y' where y': "(b, y') \<in> E\<^sup>*" "(y', z) \<in> E"
        by (meson rtranclE)
      with single step.hyps(2) have "y' = y" by blast
      with y'(1) step.IH show ?thesis by blast
    qed
  qed
qed

lemma forest_children_disjoint:
  assumes single: "\<forall>c r1 r2. (r1, c) \<in> E \<and> (r2, c) \<in> E \<longrightarrow> r1 = r2"
    and acyc: "acyclic E"
    and ch: "(u, d1) \<in> E" "(u, d2) \<in> E" "d1 \<noteq> d2"
  shows "E\<^sup>* `` {d1} \<inter> E\<^sup>* `` {d2} = {}"
proof (rule ccontr)
  assume "E\<^sup>* `` {d1} \<inter> E\<^sup>* `` {d2} \<noteq> {}"
  then obtain x where x: "(d1, x) \<in> E\<^sup>*" "(d2, x) \<in> E\<^sup>*" by blast
  have up: "\<And>d d'. (u, d) \<in> E \<Longrightarrow> (u, d') \<in> E \<Longrightarrow> d \<noteq> d' \<Longrightarrow> (d, d') \<in> E\<^sup>* \<Longrightarrow> False"
  proof -
    fix d d' assume d: "(u, d) \<in> E" "(u, d') \<in> E" "d \<noteq> d'" "(d, d') \<in> E\<^sup>*"
    from d(3,4) obtain y where y: "(d, y) \<in> E\<^sup>*" "(y, d') \<in> E" by (meson rtranclE)
    with single d(2) have "y = u" by blast
    with y(1) d(1) have "(u, u) \<in> E\<^sup>+" by (meson rtrancl_into_trancl2)
    with acyc show False by (simp add: acyclic_def)
  qed
  from single_parent_comparable[OF single x(1), of d2] x(2)
  have "(d1, d2) \<in> E\<^sup>* \<or> (d2, d1) \<in> E\<^sup>*" by blast
  then show False using up[OF ch(1) ch(2) ch(3)] up[OF ch(2) ch(1)] ch(3) by blast
qed

lemma forest_descendants:
  assumes acyc: "acyclic E"
  shows "E\<^sup>* `` {u} - {u} = (\<Union>d\<in>E `` {u}. E\<^sup>* `` {d})"
proof
  show "E\<^sup>* `` {u} - {u} \<subseteq> (\<Union>d\<in>E `` {u}. E\<^sup>* `` {d})"
  proof
    fix y assume "y \<in> E\<^sup>* `` {u} - {u}"
    then have "(u, y) \<in> E\<^sup>*" "y \<noteq> u" by auto
    then obtain d where "(u, d) \<in> E" "(d, y) \<in> E\<^sup>*" by (metis converse_rtranclE)
    then show "y \<in> (\<Union>d\<in>E `` {u}. E\<^sup>* `` {d})" by blast
  qed
next
  show "(\<Union>d\<in>E `` {u}. E\<^sup>* `` {d}) \<subseteq> E\<^sup>* `` {u} - {u}"
  proof
    fix y assume "y \<in> (\<Union>d\<in>E `` {u}. E\<^sup>* `` {d})"
    then obtain d where d: "(u, d) \<in> E" "(d, y) \<in> E\<^sup>*" by blast
    then have t: "(u, y) \<in> E\<^sup>+" by (meson rtrancl_into_trancl2)
    with acyc have "y \<noteq> u" by (auto simp: acyclic_def)
    moreover from t have "(u, y) \<in> E\<^sup>*" by (rule trancl_into_rtrancl)
    ultimately show "y \<in> E\<^sup>* `` {u} - {u}" by blast
  qed
qed

lemma forest_card:
  fixes g :: "('a \<times> 'a list) list"
  assumes single: "\<forall>c r1 r2. (r1, c) \<in> edges g \<and> (r2, c) \<in> edges g \<longrightarrow> r1 = r2"
    and acyc: "acyclic (edges g)"
    and dist: "distinct (neighbors g u)"
  shows "card ((edges g)\<^sup>* `` {u} - {u}) =
     length (neighbors g u) +
     sum_list (map (\<lambda>d. card ((edges g)\<^sup>* `` {d} - {d})) (neighbors g u))"
proof -
  let ?E = "edges g"
  let ?ds = "set (neighbors g u)"
  have ch: "?E `` {u} = ?ds" by (auto simp: edges_def)
  have fin: "\<And>d. finite (?E\<^sup>* `` {d})" by (rule finite_reach) simp
  have disj: "\<forall>i\<in>?ds. \<forall>j\<in>?ds. i \<noteq> j \<longrightarrow> ?E\<^sup>* `` {i} \<inter> ?E\<^sup>* `` {j} = {}"
  proof (intro ballI impI)
    fix i j assume "i \<in> ?ds" "j \<in> ?ds" "i \<noteq> j"
    then have "(u, i) \<in> ?E" "(u, j) \<in> ?E" using ch by blast+
    then show "?E\<^sup>* `` {i} \<inter> ?E\<^sup>* `` {j} = {}"
      using forest_children_disjoint[OF single acyc] \<open>i \<noteq> j\<close> by blast
  qed
  define f where "f = (\<lambda>d. card (?E\<^sup>* `` {d} - {d}))"
  have one: "\<And>d. card (?E\<^sup>* `` {d}) = 1 + f d"
  proof -
    fix d
    have "d \<in> ?E\<^sup>* `` {d}" by blast
    then have "card (?E\<^sup>* `` {d}) = Suc (card (?E\<^sup>* `` {d} - {d}))"
      using fin[of d] card_Suc_Diff1[of "?E\<^sup>* `` {d}" d] by metis
    then show "card (?E\<^sup>* `` {d}) = 1 + f d" unfolding f_def by linarith
  qed
  have "card (?E\<^sup>* `` {u} - {u}) = card (\<Union>d\<in>?ds. ?E\<^sup>* `` {d})"
    using forest_descendants[OF acyc, of u] ch by metis
  also have "\<dots> = (\<Sum>d\<in>?ds. card (?E\<^sup>* `` {d}))"
    using disj fin by (intro card_UN_disjoint) auto
  also have "\<dots> = (\<Sum>d\<in>?ds. 1 + f d)"
    using one by simp
  also have "\<dots> = (\<Sum>d\<in>?ds. 1) + (\<Sum>d\<in>?ds. f d)"
    by (rule sum.distrib)
  also have "\<dots> = card ?ds + (\<Sum>d\<in>?ds. f d)"
    by simp
  also have "\<dots> = length (neighbors g u) + sum_list (map f (neighbors g u))"
    using dist by (simp add: distinct_card sum_list_distinct_conv_sum_set)
  finally have "card (?E\<^sup>* `` {u} - {u}) =
      length (neighbors g u) + sum_list (map f (neighbors g u))" .
  then show ?thesis unfolding f_def .
qed

lemma reach_stays_registered:
  assumes reg: "\<forall>x y. (x, y) \<in> E \<longrightarrow> x \<in> U \<and> y \<in> U"
    and "(u, v) \<in> E\<^sup>*" "u \<in> U"
  shows "v \<in> U"
  using assms(2,3) by (induction rule: rtrancl_induct) (use reg in blast)+

lemma totalReferrals_forest:
  assumes inv: "network_inv s" and reg: "userId \<in> set (users s)"
  shows "totalReferrals s userId =
      Inr (card {v \<in> set (users s). v \<noteq> userId \<and> (userId, v) \<in> (edges (graph s))\<^sup>*})"
    and "\<exists>directReports reaches.
        getDirectReferrals s userId = Inr directReports \<and>
        map (totalReferrals s) directReports = map Inr reaches \<and>
        totalReferrals s userId = Inr (length directReports + sum_list reaches)"
proof -
  let ?E = "edges (graph s)"
  let ?ds = "neighbors (graph s) userId"
  let ?f = "\<lambda>d. card (?E\<^sup>* `` {d} - {d})"
  have i3: "\<forall>u. map_of (directReferrals s) u = map_of (graph s) u"
    using inv by (simp add: network_inv_def)
  have i4: "\<forall>x y. (x, y) \<in> ?E \<longrightarrow> x \<in> set (users s) \<and> y \<in> set (users s)"
    using inv by (simp add: network_inv_def)
  have i5: "\<forall>r c. (r, c) \<in> ?E \<longleftrightarrow> map_of (referrerOf s) c = Some r"
    using inv by (simp add: network_inv_def)
  have i6: "distinct ?ds" using inv by (simp add: network_inv_def)
  have i7: "acyclic ?E" using inv by (simp add: network_inv_def)
  have single: "\<forall>c r1 r2. (r1, c) \<in> ?E \<and> (r2, c) \<in> ?E \<longrightarrow> r1 = r2"
  proof (intro allI impI)
    fix c r1 r2 assume "(r1, c) \<in> ?E \<and> (r2, c) \<in> ?E"
    with i5 have "map_of (referrerOf s) c = Some r1" "map_of (referrerOf s) c = Some r2"
      by blast+
    then show "r1 = r2" by simp
  qed
  have set_eq: "{v \<in> set (users s). v \<noteq> userId \<and> (userId, v) \<in> ?E\<^sup>*} = ?E\<^sup>* `` {userId} - {userId}"
    using reach_stays_registered[OF i4 _ reg] by blast
  show a: "totalReferrals s userId =
      Inr (card {v \<in> set (users s). v \<noteq> userId \<and> (userId, v) \<in> ?E\<^sup>*})"
    unfolding set_eq by (rule totalReferrals_card[OF reg])
  have dr: "getDirectReferrals s userId = Inr ?ds"
    using reg i3 by (simp add: getDirectReferrals_def neighbors_def)
  have each: "map (totalReferrals s) ?ds = map Inr (map ?f ?ds)"
  proof -
    have "\<forall>d\<in>set ?ds. totalReferrals s d = Inr (?f d)"
    proof
      fix d assume "d \<in> set ?ds"
      then have "(userId, d) \<in> ?E" by (simp add: edges_def)
      with i4 have "d \<in> set (users s)" by blast
      then show "totalReferrals s d = Inr (?f d)" by (rule totalReferrals_card)
    qed
    then show ?thesis by simp
  qed
  have "totalReferrals s userId = Inr (length ?ds + sum_list (map ?f ?ds))"
    using totalReferrals_card[OF reg] forest_card[OF single i7 i6] by simp
  with dr each show "\<exists>directReports reaches.
        getDirectReferrals s userId = Inr directReports \<and>
        map (totalReferrals s) directReports = map Inr reaches \<and>
        totalReferrals s userId = Inr (length directReports + sum_list reaches)"
    by blast
qed

text \<open>
  Claim C6. In every state the object can reach and for every registered user,
  \<^verbatim>\<open>totalReferrals\<close> returns the number of users other than the given one that are
  reachable from it along referral edges; and it equals the number of the user's
  direct referrals (as \<^verbatim>\<open>getDirectReferrals\<close> returns them) plus the sum of
  \<^verbatim>\<open>totalReferrals\<close> over those direct referrals.
\<close>

theorem totalReferrals_reach:
  "let s = run_calls calls in
     userId \<in> set (users s) \<longrightarrow>
       totalReferrals s userId =
         Inr (card {v \<in> set (users s). v \<noteq> userId \<and> (userId, v) \<in> (edges (graph s))\<^sup>*}) \<and>
       (\<exists>directReports reaches.
          getDirectReferrals s userId = Inr directReports \<and>
          map (totalReferrals s) directReports = map Inr reaches \<and>
          totalReferrals s userId = Inr (length directReports + sum_list reaches))"
  unfolding Let_def
  using totalReferrals_forest[OF network_inv_run_calls, of userId calls] by blast

lemma tree_example:
  "(let s = run_calls [AddUser ''u1'', AddUser ''u2'', AddUser ''u3'', AddUser ''u4'',
                       AddUser ''u5'', AddUser ''u6'', AddReferral ''u1'' ''u2'',
                       AddReferral ''u1'' ''u3'', AddReferral ''u2'' ''u4'',
                       AddReferral ''u3'' ''u5'', AddReferral ''u3'' ''u6'']
    in ''u1'' \<in> set (users s) \<and> totalReferrals s ''u1'' = Inr 5 \<and>
       getDirectReferrals s ''u1'' = Inr [''u2'', ''u3''] \<and>
       map (totalReferrals s) [''u2'', ''u3''] = [Inr 1, Inr 2])"
  by code_simp

theorem totalReferrals_reach_witness:
  "(let s = run_calls [AddUser ''u1'', AddUser ''u2'', AddUser ''u3'', AddUser ''u4'',
                       AddUser ''u5'', AddUser ''u6'', AddReferral ''u1'' ''u2'',
                       AddReferral ''u1'' ''u3'', AddReferral ''u2'' ''u4'',
                       AddReferral ''u3'' ''u5'', AddReferral ''u3'' ''u6'']
    in ''u1'' \<in> set (users s) \<and> totalReferrals s ''u1'' = Inr 5 \<and>
       card {v \<in> set (users s). v \<noteq> ''u1'' \<and> (''u1'', v) \<in> (edges (graph s))\<^sup>*} = 5 \<and>
       getDirectReferrals s ''u1'' = Inr [''u2'', ''u3''] \<and>
       map (totalReferrals s) [''u2'', ''u3''] = [Inr 1, Inr 2] \<and>
       (5::nat) = length [''u2'', ''u3''] + sum_list [1, 2])"
  using totalReferrals_reach[of
      "[AddUser ''u1'', AddUser ''u2'', AddUser ''u3'', AddUser ''u4'',
        AddUser ''u5'', AddUser ''u6'', AddReferral ''u1'' ''u2'',
        AddReferral ''u1'' ''u3'', AddReferral ''u2'' ''u4'',
        AddReferral ''u3'' ''u5'', AddReferral ''u3'' ''u6'']" "''u1''"]
    tree_example
  unfolding Let_def by simp


lemma dist_sum_eq_iff:
  "dist_sum_eq a b c \<longleftrightarrow> (\<exists>x y z. a = Dist x \<and> b = Dist y \<and> c = Dist z \<and> x + y = z)"
  by (cases a; cases b; cases c) simp_all














end
